theory Spec2Isabelle
  imports Main "HOL-Library.Word" "HOL-Library.Multiset"
begin

unbundle bit_operations_syntax

section \<open>The wait-free ring (randring.go and internal/randring/randring.go)\<close>

text \<open>
  Go panics are values of \<open>error\<close>. An \<open>unsafe.Pointer\<close> slot is an \<open>'a option\<close>:
  \<open>None\<close> is \<open>nil\<close>, \<open>Some x\<close> points to the item \<open>x\<close>. The cursors are \<open>uint64\<close>,
  so \<open>+\<close> wraps modulo \<open>2 ^ 64\<close> and comparisons are unsigned.
\<close>

datatype error =
    IllegalRingSize
  | IndexOutOfRange
  | NilTypeAssertion
  | NilDereference
  | SliceBoundsOutOfRange
  | MakeSliceCapOutOfRange
  | OutOfMemory

type_synonym uint64 = "64 word"

record 'a Ring =
  rmask :: uint64
  writeIndex :: uint64
  writeIndexCache :: uint64
  readIndex :: uint64
  buckets :: "'a option list"

text \<open>
  \<open>newRandRing\<close> (and \<open>New\<close> of internal/randring, which has the same body):
  \<open>n > 16 || n == 0\<close> panics; otherwise \<open>1 << n\<close> empty buckets, mask \<open>(1 << n) - 1\<close>,
  and \<open>writeIndex = ^writeIndex\<close>, that is all ones, so that the first push lands on index 0.
\<close>

definition newRandRing :: "uint64 \<Rightarrow> error + 'a Ring" where
  "newRandRing n =
     (if n > 16 \<or> n = 0 then Inl IllegalRingSize
      else Inr \<lparr> rmask = push_bit (unat n) 1 - 1,
                 writeIndex = NOT 0,
                 writeIndexCache = 0,
                 readIndex = 0,
                 buckets = replicate (2 ^ unat n) None \<rparr>)"

text \<open>
  The event pool (bodypool.go) is a \<open>sync.Pool\<close>: \<open>free\<close> puts the body back. The pool is
  modelled by the list of the bodies that were put back, most recent first.

  \<open>Push\<close> of randring.go: \<open>atomic.AddUint64\<close> returns the incremented cursor, the slot is
  swapped, and a non-nil previous occupant is freed to the pool. Indexing a slice out of range
  panics.
\<close>

definition Push :: "'a option \<Rightarrow> 'a Ring \<times> 'a list \<Rightarrow> error + ('a Ring \<times> 'a list)" where
  "Push data s =
     (case s of (r, pool) \<Rightarrow>
        let w = writeIndex r + 1;
            idx = unat (w AND rmask r)
        in if idx < length (buckets r)
           then let old = buckets r ! idx;
                    r' = r \<lparr> writeIndex := w, buckets := (buckets r)[idx := data] \<rparr>
                in Inr (r', case old of None \<Rightarrow> pool | Some lb \<Rightarrow> lb # pool)
           else Inl IndexOutOfRange)"

text \<open>
  \<open>TryPop\<close> of randring.go. The result is the popped pointer, the \<open>ok\<close> flag and the
  ring after the call (the cache refresh and the slot swap are kept even when nothing is popped).
\<close>

definition TryPop :: "'a Ring \<Rightarrow> error + ('a option \<times> bool \<times> 'a Ring)" where
  "TryPop r =
     (let r1 = (if readIndex r \<ge> writeIndexCache r
                then r \<lparr> writeIndexCache := writeIndex r \<rparr> else r)
      in if readIndex r \<ge> writeIndexCache r \<and> readIndex r1 \<ge> writeIndexCache r1
         then Inr (None, False, r1)
         else let idx = unat (readIndex r1 AND rmask r1)
              in if idx < length (buckets r1)
                 then (case buckets r1 ! idx of
                         None \<Rightarrow> Inr (None, False, r1 \<lparr> buckets := (buckets r1)[idx := None] \<rparr>)
                       | Some d \<Rightarrow>
                           Inr (Some d, True,
                                r1 \<lparr> buckets := (buckets r1)[idx := None],
                                    readIndex := readIndex r1 + 1 \<rparr>))
                 else Inl IndexOutOfRange)"

text \<open>
  The ring of internal/randring: \<open>Push\<close> stores without looking at the previous occupant (there
  is no pool), and \<open>TryPop\<close> compares with \<open>>\<close> where randring.go compares with \<open>>=\<close>.
\<close>

definition ring_Push :: "'a option \<Rightarrow> 'a Ring \<Rightarrow> error + 'a Ring" where
  "ring_Push data r =
     (let w = writeIndex r + 1;
          idx = unat (w AND rmask r)
      in if idx < length (buckets r)
         then Inr (r \<lparr> writeIndex := w, buckets := (buckets r)[idx := data] \<rparr>)
         else Inl IndexOutOfRange)"

definition ring_TryPop :: "'a Ring \<Rightarrow> error + ('a option \<times> bool \<times> 'a Ring)" where
  "ring_TryPop r =
     (let r1 = (if readIndex r > writeIndexCache r
                then r \<lparr> writeIndexCache := writeIndex r \<rparr> else r)
      in if readIndex r > writeIndexCache r \<and> readIndex r1 > writeIndexCache r1
         then Inr (None, False, r1)
         else let idx = unat (readIndex r1 AND rmask r1)
              in if idx < length (buckets r1)
                 then (case buckets r1 ! idx of
                         None \<Rightarrow> Inr (None, False, r1 \<lparr> buckets := (buckets r1)[idx := None] \<rparr>)
                       | Some d \<Rightarrow>
                           Inr (Some d, True,
                                r1 \<lparr> buckets := (buckets r1)[idx := None],
                                    readIndex := readIndex r1 + 1 \<rparr>))
                 else Inl IndexOutOfRange)"


subsection \<open>Draining and operation sequences\<close>

text \<open>
  The number of occupied slots; every successful pop lowers it, which is why a consumer
  that pops until \<open>ok\<close> is false terminates.
\<close>

definition occupied :: "'a option list \<Rightarrow> nat" where
  "occupied bs = length (filter (\<lambda>b. b \<noteq> None) bs)"

lemma occupied_clear:
  "i < length bs \<Longrightarrow> bs ! i \<noteq> None \<Longrightarrow> Suc (occupied (bs[i := None])) = occupied bs"
proof (induction bs arbitrary: i)
  case Nil
  then show ?case by simp
next
  case (Cons b bs)
  then show ?case by (cases i) (auto simp: occupied_def)
qed

lemma occupied_store:
  "occupied (bs[i := d]) \<le> Suc (occupied bs)"
proof (induction bs arbitrary: i)
  case Nil
  then show ?case by (simp add: occupied_def)
next
  case (Cons b bs)
  then show ?case by (cases i) (auto simp: occupied_def)
qed

lemma TryPop_ok_occupied:
  "TryPop r = Inr (d, True, r') \<Longrightarrow> occupied (buckets r') < occupied (buckets r)"
  using occupied_clear
  by (fastforce simp: TryPop_def Let_def split: if_splits option.splits)

lemma ring_TryPop_ok_occupied:
  "ring_TryPop r = Inr (d, True, r') \<Longrightarrow> occupied (buckets r') < occupied (buckets r)"
  using occupied_clear
  by (fastforce simp: ring_TryPop_def Let_def split: if_splits option.splits)

text \<open>
  The single consumer of the tests and of \<open>writeLoop\<close>: call \<open>TryPop\<close> until it reports
  \<open>ok = false\<close>, collecting the pointers it returned.
\<close>

function drain :: "'a Ring \<Rightarrow> error + ('a option list \<times> 'a Ring)" where
  "drain r =
     (case TryPop r of
        Inl e \<Rightarrow> Inl e
      | Inr (d, ok, r') \<Rightarrow>
          if ok
          then (case drain r' of
                  Inl e \<Rightarrow> Inl e
                | Inr (ds, r'') \<Rightarrow> Inr (d # ds, r''))
          else Inr ([], r'))"
  by pat_completeness auto
termination
  by (relation "measure (\<lambda>r. occupied (buckets r))") (auto dest: TryPop_ok_occupied)

declare drain.simps [simp del]

function ring_drain :: "'a Ring \<Rightarrow> error + ('a option list \<times> 'a Ring)" where
  "ring_drain r =
     (case ring_TryPop r of
        Inl e \<Rightarrow> Inl e
      | Inr (d, ok, r') \<Rightarrow>
          if ok
          then (case ring_drain r' of
                  Inl e \<Rightarrow> Inl e
                | Inr (ds, r'') \<Rightarrow> Inr (d # ds, r''))
          else Inr ([], r'))"
  by pat_completeness auto
termination
  by (relation "measure (\<lambda>r. occupied (buckets r))") (auto dest: ring_TryPop_ok_occupied)

declare ring_drain.simps [simp del]

text \<open>A sequential history of calls on one ring, for each of the two rings.\<close>

datatype 'a ring_op = OpPush "'a option" | OpTryPop

fun run_ops :: "'a ring_op list \<Rightarrow> 'a Ring \<times> 'a list \<Rightarrow> error + ('a Ring \<times> 'a list)" where
  "run_ops [] s = Inr s"
| "run_ops (OpPush d # ops) s =
     (case Push d s of Inl e \<Rightarrow> Inl e | Inr s' \<Rightarrow> run_ops ops s')"
| "run_ops (OpTryPop # ops) s =
     (case TryPop (fst s) of
        Inl e \<Rightarrow> Inl e
      | Inr (d, ok, r') \<Rightarrow> run_ops ops (r', snd s))"

fun ring_run_ops :: "'a ring_op list \<Rightarrow> 'a Ring \<Rightarrow> error + 'a Ring" where
  "ring_run_ops [] r = Inr r"
| "ring_run_ops (OpPush d # ops) r =
     (case ring_Push d r of Inl e \<Rightarrow> Inl e | Inr r' \<Rightarrow> ring_run_ops ops r')"
| "ring_run_ops (OpTryPop # ops) r =
     (case ring_TryPop r of
        Inl e \<Rightarrow> Inl e
      | Inr (d, ok, r') \<Rightarrow> ring_run_ops ops r')"

fun pushes :: "'a ring_op list \<Rightarrow> nat" where
  "pushes [] = 0"
| "pushes (OpPush d # ops) = Suc (pushes ops)"
| "pushes (OpTryPop # ops) = pushes ops"

section \<open>Backup catalog (zaproll/backup.go)\<close>

type_synonym int64 = "64 word"

subsection \<open>The library functions the package calls\<close>

text \<open>
  \<open>path/filepath\<close> on Unix, where the separator is \<open>/\<close> and there is no volume name.
  \<open>Base\<close> strips trailing separators and returns the last element (\<open>.\<close> for the empty path,
  \<open>/\<close> for a path of separators only); \<open>Ext\<close> is the suffix of the last element that starts
  at its last dot.
\<close>

definition Base :: "string \<Rightarrow> string" where
  "Base path =
     (if path = [] then ''.''
      else let p1 = rev (dropWhile (\<lambda>c. c = CHR ''/'') (rev path));
               p2 = rev (takeWhile (\<lambda>c. c \<noteq> CHR ''/'') (rev p1))
           in if p2 = [] then ''/'' else p2)"

definition Ext :: "string \<Rightarrow> string" where
  "Ext path =
     (let t = takeWhile (\<lambda>c. c \<noteq> CHR ''/'') (rev path)
      in if CHR ''.'' \<in> set t
         then CHR ''.'' # rev (takeWhile (\<lambda>c. c \<noteq> CHR ''.'') t)
         else [])"

text \<open>
  \<open>Clean\<close>: the path is cut at the separators; empty elements and \<open>.\<close> are dropped; a
  \<open>..\<close> removes the element before it, is dropped at the root, and is kept at the start of
  a path that is not rooted. The elements are joined by single separators; the empty result
  is \<open>.\<close>.
\<close>

fun split_acc :: "string \<Rightarrow> string \<Rightarrow> string list" where
  "split_acc cur [] = [rev cur]"
| "split_acc cur (c # cs) =
     (if c = CHR ''/'' then rev cur # split_acc [] cs else split_acc (c # cur) cs)"

definition split_slash :: "string \<Rightarrow> string list" where
  "split_slash path = split_acc [] path"

fun join_slash :: "string list \<Rightarrow> string" where
  "join_slash [] = []"
| "join_slash [s] = s"
| "join_slash (s # ss) = s @ CHR ''/'' # join_slash ss"

definition clean_step :: "bool \<Rightarrow> string list \<Rightarrow> string \<Rightarrow> string list" where
  "clean_step rooted st e =
     (if e = [] \<or> e = ''.'' then st
      else if e = ''..''
      then (if st \<noteq> [] \<and> last st \<noteq> ''..'' then butlast st
            else if \<not> rooted then st @ [e] else st)
      else st @ [e])"

definition Clean :: "string \<Rightarrow> string" where
  "Clean path =
     (if path = [] then ''.''
      else let rooted = (hd path = CHR ''/'');
               out = join_slash (foldl (clean_step rooted) [] (split_slash path))
           in if rooted then CHR ''/'' # out
              else if out = [] then ''.'' else out)"

definition Dir :: "string \<Rightarrow> string" where
  "Dir path = Clean (rev (dropWhile (\<lambda>c. c \<noteq> CHR ''/'') (rev path)))"

text \<open>\<open>filepath.Join\<close> of two elements: empty elements are ignored, the rest is cleaned.\<close>

definition Join :: "string \<Rightarrow> string \<Rightarrow> string" where
  "Join a b =
     (if a \<noteq> [] then Clean (a @ CHR ''/'' # b)
      else if b \<noteq> [] then Clean b
      else [])"

definition HasPrefix :: "string \<Rightarrow> string \<Rightarrow> bool" where
  "HasPrefix s p \<longleftrightarrow> length s \<ge> length p \<and> take (length p) s = p"

definition HasSuffix :: "string \<Rightarrow> string \<Rightarrow> bool" where
  "HasSuffix s p \<longleftrightarrow> length s \<ge> length p \<and> drop (length s - length p) s = p"

text \<open>
  Package \<open>time\<close> is a parameter: a time value of type \<open>'t\<close> with the four functions
  the package calls. \<open>Parse\<close> returns \<open>None\<close> for its error.
\<close>

record 't timelib =
  UTC :: "'t \<Rightarrow> 't"
  Format :: "'t \<Rightarrow> string \<Rightarrow> string"
  Parse :: "string \<Rightarrow> string \<Rightarrow> 't option"
  Unix :: "'t \<Rightarrow> int64"

subsection \<open>Backup names\<close>

definition getPrefixAndExt :: "string \<Rightarrow> string \<times> string" where
  "getPrefixAndExt outputPath =
     (let name = Base outputPath;
          ext = Ext name;
          prefix = take (length name - length ext) name @ ''-''
      in (prefix, ext))"

definition backupTimeFmt :: string where
  "backupTimeFmt = ''2006-01-02T15:04:05.000Z0700''"

text \<open>
  \<open>parseTime\<close>: 0 stands for an illegal backup name. The slice expression
  \<open>filename[len(prefix) : len(filename)-len(ext)]\<close> panics when its low bound exceeds its
  high bound.
\<close>

definition parseTime :: "'t timelib \<Rightarrow> string \<Rightarrow> string \<Rightarrow> string \<Rightarrow> error + int64" where
  "parseTime lib path prefix ext =
     (let filename = Base path
      in if \<not> HasPrefix filename prefix then Inr 0
         else if \<not> HasSuffix filename ext then Inr 0
         else if length prefix > length filename - length ext then Inl SliceBoundsOutOfRange
         else let tsStr = drop (length prefix) (take (length filename - length ext) filename)
              in case Parse lib backupTimeFmt tsStr of
                   None \<Rightarrow> Inr 0
                 | Some t \<Rightarrow> Inr (Unix lib t))"

definition makeBackupFP :: "'t timelib \<Rightarrow> string \<Rightarrow> bool \<Rightarrow> 't \<Rightarrow> string \<times> int64" where
  "makeBackupFP lib name local t0 =
     (let dir = Dir name;
          filename = Base name;
          ext = Ext filename;
          prefix = take (length filename - length ext) filename;
          t = (if \<not> local then UTC lib t0 else t0);
          timestamp = Format lib t backupTimeFmt
      in (Join dir (prefix @ ''-'' @ timestamp @ ext), Unix lib t))"

subsection \<open>The heap of backups\<close>

record Backup =
  ts :: int64
  fp :: string

text \<open>
  \<open>Backups\<close> is the slice \<open>bs\<close> with the methods of \<open>heap.Interface\<close>. \<open>Less\<close> compares the
  signed timestamps. \<open>Swap\<close> is called with indices that are in range and not negative.
\<close>

definition Less :: "Backup list \<Rightarrow> nat \<Rightarrow> nat \<Rightarrow> bool" where
  "Less bs i j \<longleftrightarrow> ts (bs ! i) <s ts (bs ! j)"

definition Swap :: "Backup list \<Rightarrow> nat \<Rightarrow> nat \<Rightarrow> Backup list" where
  "Swap bs i j = bs[i := bs ! j, j := bs ! i]"

text \<open>
  \<open>up\<close> and \<open>down\<close> of container/heap. The parent of \<open>j\<close> is \<open>(j - 1) / 2\<close>, which is 0
  for \<open>j = 0\<close> in Go (division truncates) as in \<open>nat\<close>.
\<close>

function up :: "Backup list \<Rightarrow> nat \<Rightarrow> Backup list" where
  "up bs j =
     (let i = (j - 1) div 2
      in if i = j \<or> \<not> Less bs j i then bs
         else up (Swap bs i j) i)"
  by pat_completeness auto
termination
  by (relation "measure snd") auto

function down :: "Backup list \<Rightarrow> nat \<Rightarrow> nat \<Rightarrow> Backup list" where
  "down bs i n =
     (let j1 = 2 * i + 1
      in if j1 \<ge> n then bs
         else let j = (if j1 + 1 < n \<and> Less bs (j1 + 1) j1 then j1 + 1 else j1)
              in if \<not> Less bs j i then bs
                 else down (Swap bs i j) j n)"
  by pat_completeness auto
termination
  by (relation "measure (\<lambda>(bs, i, n). n - i)") auto

declare up.simps [simp del]
declare down.simps [simp del]

text \<open>
  \<open>heap.Push\<close> appends and sifts up. \<open>heap.Pop\<close> swaps the root with the last element, sifts
  down within the first \<open>n\<close> elements and removes the last; on the empty heap the method
  \<open>Pop\<close> returns the nil interface.
\<close>

definition heap_Push :: "Backup list \<Rightarrow> Backup \<Rightarrow> Backup list" where
  "heap_Push bs x = up (bs @ [x]) (length bs)"

definition heap_Pop :: "Backup list \<Rightarrow> Backup option \<times> Backup list" where
  "heap_Pop bs =
     (if bs = [] then (None, [])
      else let n = length bs - 1;
               bs1 = down (Swap bs 0 n) 0 n
           in (Some (last bs1), butlast bs1))"

lemma length_Swap: "length (Swap bs i j) = length bs"
  by (simp add: Swap_def)

lemma length_up: "length (up bs j) = length bs"
proof (induction bs j rule: up.induct)
  case (1 bs j)
  then show ?case by (subst up.simps) (simp add: Let_def length_Swap)
qed

lemma length_down: "length (down bs i n) = length bs"
proof (induction bs i n rule: down.induct)
  case (1 bs i n)
  then show ?case by (subst down.simps) (simp add: Let_def length_Swap)
qed

lemma heap_Pop_length:
  "heap_Pop bs = (Some v, bs') \<Longrightarrow> length bs' < length bs"
  by (auto simp: heap_Pop_def Let_def length_down length_Swap split: if_splits)

subsection \<open>The scan at construction\<close>

text \<open>
  The calls into the operating system are answered by the environment, and the calls that
  change the file system are recorded as events. \<open>File\<close> is an open \<open>*os.File\<close>.
\<close>

type_synonym File = nat

datatype event =
    EvMkdirAll string bool
  | EvRename string string bool
  | EvRemove string
  | EvOpenFile string "File option"
  | EvFileWrite "File option" int64
  | EvFlushHint "File option" int64 int64
  | EvDropCache "File option" int64 int64
  | EvClose "File option"

datatype goerr =
    ErrEmptyPath
  | ErrMkdirAll
  | ErrReadDir
  | ErrRename string string
  | ErrCreate

text \<open>
  What the runtime and the operating system answer during \<open>listBackups\<close>: whether the
  memory of the slice is obtained, whether \<open>os.MkdirAll\<close> succeeds, and the entries that
  \<open>os.ReadDir\<close> returns (name and \<open>IsDir\<close>), \<open>None\<close> for its error.
\<close>

record ScanEnv =
  scan_alloc_ok :: bool
  scan_mkdir_ok :: bool
  scan_entries :: "(string \<times> bool) list option"

fun scan_entries_loop ::
  "'t timelib \<Rightarrow> string \<Rightarrow> string \<Rightarrow> string \<Rightarrow> (string \<times> bool) list \<Rightarrow> Backup list
     \<Rightarrow> error + Backup list" where
  "scan_entries_loop lib dir prefix ext [] bs = Inr bs"
| "scan_entries_loop lib dir prefix ext ((name, isDir) # ns) bs =
     (if isDir then scan_entries_loop lib dir prefix ext ns bs
      else case parseTime lib name prefix ext of
             Inl e \<Rightarrow> Inl e
           | Inr t \<Rightarrow>
               if t \<noteq> 0
               then scan_entries_loop lib dir prefix ext ns
                      (heap_Push bs \<lparr> ts = t, fp = Join dir name \<rparr>)
               else scan_entries_loop lib dir prefix ext ns bs)"

text \<open>
  \<open>for b.Len() > max { v := heap.Pop(b); os.Remove(v.(Backup).fp) }\<close>. The type assertion
  on the nil interface panics. The result is the heap and the removed paths, in order.
\<close>

function evict_loop :: "int \<Rightarrow> Backup list \<Rightarrow> error + (Backup list \<times> string list)" where
  "evict_loop maxb bs =
     (if int (length bs) > maxb
      then (case heap_Pop bs of
              (None, bs') \<Rightarrow> Inl NilTypeAssertion
            | (Some v, bs') \<Rightarrow>
                (case evict_loop maxb bs' of
                   Inl e \<Rightarrow> Inl e
                 | Inr (bs'', removed) \<Rightarrow> Inr (bs'', fp v # removed)))
      else Inr (bs, []))"
  by pat_completeness auto
termination
  by (relation "measure (\<lambda>(maxb, bs). length bs)") (auto dest: heap_Pop_length [OF sym])

declare evict_loop.simps [simp del]

definition Backups_list ::
  "'t timelib \<Rightarrow> ScanEnv \<Rightarrow> string \<Rightarrow> int \<Rightarrow> Backup list
     \<Rightarrow> error + (goerr option \<times> event list \<times> Backup list)" where
  "Backups_list lib env outputPath maxb bs =
     (let dir = Dir outputPath
      in if \<not> scan_mkdir_ok env then Inr (Some ErrMkdirAll, [EvMkdirAll dir False], bs)
         else case scan_entries env of
                None \<Rightarrow> Inr (Some ErrReadDir, [EvMkdirAll dir True], bs)
              | Some ns \<Rightarrow>
                  (case scan_entries_loop lib dir (fst (getPrefixAndExt outputPath))
                          (snd (getPrefixAndExt outputPath)) ns bs of
                     Inl e \<Rightarrow> Inl e
                   | Inr bs1 \<Rightarrow>
                       (case evict_loop maxb bs1 of
                          Inl e \<Rightarrow> Inl e
                        | Inr (bs2, removed) \<Rightarrow>
                            Inr (None, EvMkdirAll dir True # map EvRemove removed, bs2))))"

text \<open>
  \<open>make([]Backup, 0, max*2)\<close>. The maximum is a Go \<open>int\<close> of 64 bits, so the product
  wraps. \<open>runtime.makeslice\<close> panics when the capacity is negative or when the slice would
  be larger than \<open>maxAlloc\<close>, which is \<open>2 ^ 48\<close> bytes on 64-bit Linux; a \<open>Backup\<close> takes 24
  bytes (an \<open>int64\<close> and a string header). Within these bounds the program dies with
  \<open>out of memory\<close> when the runtime does not obtain the memory.
\<close>

definition wrap64 :: "int \<Rightarrow> int" where
  "wrap64 x = (x + 2 ^ 63) mod 2 ^ 64 - 2 ^ 63"

definition maxAlloc :: int where
  "maxAlloc = 2 ^ 48"

definition sizeof_Backup :: int where
  "sizeof_Backup = 24"

definition make_Backups :: "bool \<Rightarrow> int \<Rightarrow> error + Backup list" where
  "make_Backups alloc_ok cap =
     (if cap < 0 \<or> sizeof_Backup * cap > maxAlloc then Inl MakeSliceCapOutOfRange
      else if \<not> alloc_ok then Inl OutOfMemory
      else Inr [])"

definition listBackups ::
  "'t timelib \<Rightarrow> ScanEnv \<Rightarrow> string \<Rightarrow> int
     \<Rightarrow> error + (goerr option \<times> event list \<times> Backup list option)" where
  "listBackups lib env outputPath maxb =
     (case make_Backups (scan_alloc_ok env) (wrap64 (maxb * 2)) of
        Inl e \<Rightarrow> Inl e
      | Inr bs0 \<Rightarrow>
          (case Backups_list lib env outputPath maxb bs0 of
             Inl e \<Rightarrow> Inl e
           | Inr (Some err, evs, bs) \<Rightarrow> Inr (Some err, evs, None)
           | Inr (None, evs, bs) \<Rightarrow> Inr (None, evs, Some bs)))"

text \<open>The maxima for which \<open>makeslice\<close> does not panic.\<close>

definition within_alloc :: "int \<Rightarrow> bool" where
  "within_alloc maxb \<longleftrightarrow> 0 \<le> maxb \<and> sizeof_Backup * (maxb * 2) \<le> maxAlloc"


section \<open>Rotating file sink (zaproll)\<close>

text \<open>
  Modelled from the spec: the configuration type \<open>Config\<close> and its \<open>adjust\<close> method are not
  among the sources. The fields are the recognised options of the rotation configuration:
  \<open>output_path\<close>, \<open>max_size_bytes\<close>, \<open>max_backups\<close>, \<open>local_time\<close>,
  \<open>per_write_buffer_size\<close> and \<open>per_sync_dirty_threshold\<close>, under the names the code uses.
  \<open>adjust\<close> is a parameter of \<open>prepare\<close>.
\<close>

record Config =
  OutputPath :: string
  MaxSize :: int64
  MaxBackups :: int
  LocalTime :: bool
  PerWriteSize :: int64
  PerSyncSize :: int64

text \<open>
  Modelled from the spec: the buffered writer \<open>bufIO\<close> (\<open>newBufIO\<close>, \<open>write\<close>, \<open>flush\<close>,
  \<open>reset\<close>) is not among the sources. A write appends into an internal buffer, and when the
  buffer's flush threshold is crossed bytes land in the file; \<open>flush\<close> forces the buffer to
  the file. The model keeps the file the buffer targets, and lets the environment say how
  many bytes land in the file in a call (\<open>buf_fw\<close>), which is the value \<open>fw\<close> the code reads.
\<close>

record bufIO =
  bio_f :: "File option"

record 't Env =
  now :: 't
  rename_ok :: bool
  mkdir_ok :: bool
  open_res :: "File option"
  buf_fw :: int64

definition newBufIO :: "File option \<Rightarrow> int64 \<Rightarrow> bufIO" where
  "newBufIO file bsize = \<lparr> bio_f = file \<rparr>"

definition bufIO_write :: "'t Env \<Rightarrow> bufIO \<Rightarrow> 'b list \<Rightarrow> int64 \<times> event list" where
  "bufIO_write env b p = (buf_fw env, [EvFileWrite (bio_f b) (buf_fw env)])"

definition bufIO_flush :: "'t Env \<Rightarrow> bufIO \<Rightarrow> int64 \<times> event list" where
  "bufIO_flush env b = (buf_fw env, [EvFileWrite (bio_f b) (buf_fw env)])"

definition bufIO_reset :: "bufIO \<Rightarrow> File option \<Rightarrow> bufIO" where
  "bufIO_reset b file = b \<lparr> bio_f := file \<rparr>"

text \<open>
  The \<open>Rotation\<close> struct without its mutex. \<open>r_f\<close> is the field \<open>f\<close>; a nil pointer is
  \<open>None\<close>.
\<close>

record Rotation =
  cfg :: Config
  backups :: "Backup list option"
  r_f :: "File option"
  buf :: "bufIO option"
  written :: int64
  dirty :: int64
  synced :: int64

text \<open>
  The first half of \<open>open\<close>: when a file is open, it is renamed to the backup path, the backup
  is pushed on the heap, and one backup is evicted when the heap is longer than \<open>MaxBackups\<close>.
  The heap is changed in place, so the change stays when a later step of \<open>open\<close> fails.
\<close>

definition move_to_backups ::
  "'t timelib \<Rightarrow> 't Env \<Rightarrow> Rotation \<Rightarrow> error + (goerr option \<times> event list \<times> Rotation)" where
  "move_to_backups lib env r =
     (let path = OutputPath (cfg r);
          backupFP = fst (makeBackupFP lib path (LocalTime (cfg r)) (now env));
          t = snd (makeBackupFP lib path (LocalTime (cfg r)) (now env))
      in if \<not> rename_ok env
         then Inr (Some (ErrRename path backupFP), [EvRename path backupFP False], r)
         else case backups r of
                None \<Rightarrow> Inl NilDereference
              | Some bs \<Rightarrow>
                  let bs1 = heap_Push bs \<lparr> ts = t, fp = backupFP \<rparr>
                  in if int (length bs1) > MaxBackups (cfg r)
                     then (case heap_Pop bs1 of
                             (None, bs2) \<Rightarrow> Inl NilTypeAssertion
                           | (Some v, bs2) \<Rightarrow>
                               Inr (None, [EvRename path backupFP True, EvRemove (fp v)],
                                    r \<lparr> backups := Some bs2 \<rparr>))
                     else Inr (None, [EvRename path backupFP True], r \<lparr> backups := Some bs1 \<rparr>))"

text \<open>
  The second half of \<open>open\<close>: the directory is made, the file is created, and only then
  \<open>r.f\<close> is assigned.
\<close>

definition create_file ::
  "'t Env \<Rightarrow> event list \<Rightarrow> Rotation \<Rightarrow> goerr option \<times> event list \<times> Rotation" where
  "create_file env evs r =
     (let path = OutputPath (cfg r);
          dir = Dir path
      in if \<not> mkdir_ok env then (Some ErrMkdirAll, evs @ [EvMkdirAll dir False], r)
         else case open_res env of
                None \<Rightarrow> (Some ErrCreate, evs @ [EvMkdirAll dir True, EvOpenFile path None], r)
              | Some h \<Rightarrow>
                  (None, evs @ [EvMkdirAll dir True, EvOpenFile path (Some h)],
                   r \<lparr> r_f := Some h \<rparr>))"

definition Rotation_open ::
  "'t timelib \<Rightarrow> 't Env \<Rightarrow> Rotation \<Rightarrow> error + (goerr option \<times> event list \<times> Rotation)" where
  "Rotation_open lib env r =
     (if r_f r \<noteq> None
      then (case move_to_backups lib env r of
              Inl e \<Rightarrow> Inl e
            | Inr (Some err, evs, r1) \<Rightarrow> Inr (Some err, evs, r1)
            | Inr (None, evs, r1) \<Rightarrow> Inr (create_file env evs r1))
      else Inr (create_file env [] r))"

text \<open>
  \<open>flushDirty\<close> has no result: the error of \<open>open\<close> only decides whether the old file is
  released and the buffer retargeted. The counters are reset in both cases.
\<close>

definition flushDirty ::
  "'t timelib \<Rightarrow> 't Env \<Rightarrow> bool \<Rightarrow> Rotation \<Rightarrow> error + (event list \<times> Rotation)" where
  "flushDirty lib env force r =
     (let hint = (PerSyncSize (cfg r) \<le>s dirty r \<or> force);
          evs1 = (if hint then [EvFlushHint (r_f r) (synced r) (dirty r)] else []);
          r1 = (if hint then r \<lparr> synced := synced r + dirty r, dirty := 0 \<rparr> else r)
      in if MaxSize (cfg r1) \<le>s written r1
         then (let oldF = r_f r1
               in case Rotation_open lib env r1 of
                    Inl e \<Rightarrow> Inl e
                  | Inr (err, evs2, r2) \<Rightarrow>
                      (case (if err = None
                             then (case buf r2 of
                                     None \<Rightarrow> Inl NilDereference
                                   | Some b \<Rightarrow>
                                       Inr ([EvFlushHint oldF 0 (MaxSize (cfg r2)),
                                             EvDropCache oldF 0 (MaxSize (cfg r2)),
                                             EvClose oldF],
                                            r2 \<lparr> buf := Some (bufIO_reset b (r_f r2)) \<rparr>))
                             else Inr ([], r2)) of
                         Inl e \<Rightarrow> Inl e
                       | Inr (evs3, r3) \<Rightarrow>
                           Inr (evs1 @ evs2 @ evs3,
                                r3 \<lparr> dirty := 0, written := 0, synced := 0 \<rparr>)))
         else Inr (evs1, r1))"

text \<open>
  \<open>Write\<close> and \<open>Sync\<close>. The result of \<open>Write\<close> is the pair \<open>(written, err)\<close>, that of
  \<open>Sync\<close> is \<open>err\<close>; with them come the events of the call and the sink after it.
\<close>

definition Rotation_Write ::
  "'t timelib \<Rightarrow> 't Env \<Rightarrow> 'b list \<Rightarrow> Rotation
     \<Rightarrow> error + ((nat \<times> goerr option) \<times> event list \<times> Rotation)" where
  "Rotation_Write lib env p r =
     (case buf r of
        None \<Rightarrow> Inl NilDereference
      | Some b \<Rightarrow>
          let fw = fst (bufIO_write env b p);
              evs0 = snd (bufIO_write env b p);
              r1 = r \<lparr> dirty := dirty r + fw, written := written r + fw \<rparr>
          in if fw = 0 then Inr ((length p, None), evs0, r1)
             else (case flushDirty lib env False r1 of
                     Inl e \<Rightarrow> Inl e
                   | Inr (evs, r2) \<Rightarrow> Inr ((length p, None), evs0 @ evs, r2)))"

definition Rotation_Sync ::
  "'t timelib \<Rightarrow> 't Env \<Rightarrow> Rotation \<Rightarrow> error + (goerr option \<times> event list \<times> Rotation)" where
  "Rotation_Sync lib env r =
     (case buf r of
        None \<Rightarrow> Inl NilDereference
      | Some b \<Rightarrow>
          let fw = fst (bufIO_flush env b);
              evs0 = snd (bufIO_flush env b);
              r1 = r \<lparr> dirty := dirty r + fw, written := written r + fw \<rparr>
          in (case flushDirty lib env True r1 of
                Inl e \<Rightarrow> Inl e
              | Inr (evs, r2) \<Rightarrow> Inr (None, evs0 @ evs, r2)))"

text \<open>
  \<open>prepare\<close> (and \<open>New\<close>, which only forwards its results): the sink pointer and the error.
\<close>

definition prepare ::
  "(Config \<Rightarrow> Config) \<Rightarrow> 't timelib \<Rightarrow> ScanEnv \<Rightarrow> 't Env \<Rightarrow> Config
     \<Rightarrow> error + (Rotation option \<times> goerr option \<times> event list)" where
  "prepare adjust lib senv env cfg0 =
     (if OutputPath cfg0 = [] then Inr (None, Some ErrEmptyPath, [])
      else let c = adjust cfg0;
               r = \<lparr> cfg = c, backups = None, r_f = None, buf = None,
                     written = 0, dirty = 0, synced = 0 \<rparr>
           in case listBackups lib senv (OutputPath c) (MaxBackups c) of
                Inl e \<Rightarrow> Inl e
              | Inr (Some err, evs, bs) \<Rightarrow> Inr (Some r, Some err, evs)
              | Inr (None, evs, bs) \<Rightarrow>
                  (case Rotation_open lib env (r \<lparr> backups := bs \<rparr>) of
                     Inl e \<Rightarrow> Inl e
                   | Inr (Some err, evs2, r2) \<Rightarrow> Inr (Some r2, Some err, evs @ evs2)
                   | Inr (None, evs2, r2) \<Rightarrow>
                       Inr (Some (r2 \<lparr> buf := Some (newBufIO (r_f r2) (PerWriteSize (cfg r2))) \<rparr>),
                            None, evs @ evs2)))"

definition Rotation_New ::
  "(Config \<Rightarrow> Config) \<Rightarrow> 't timelib \<Rightarrow> ScanEnv \<Rightarrow> 't Env \<Rightarrow> Config
     \<Rightarrow> error + (Rotation option \<times> goerr option \<times> event list)" where
  "Rotation_New adjust lib senv env cfg0 = prepare adjust lib senv env cfg0"

subsection \<open>Histories of the sink and the files they write\<close>

datatype ('t, 'b) rot_op =
    OpWrite "'t Env" "'b list"
  | OpSync "'t Env"

text \<open>
  What the events do to the open files: the number of bytes in each file and the end of the
  last flush hint given for it. A file that has just been opened with \<open>O_TRUNC\<close> is empty.
\<close>

record World =
  fsize :: "File \<Rightarrow> int64"
  hint_end :: "File \<Rightarrow> int64"

fun apply_event :: "World \<Rightarrow> event \<Rightarrow> World" where
  "apply_event w (EvFileWrite (Some h) n) = w \<lparr> fsize := (fsize w)(h := fsize w h + n) \<rparr>"
| "apply_event w (EvFlushHint (Some h) off n) = w \<lparr> hint_end := (hint_end w)(h := off + n) \<rparr>"
| "apply_event w (EvOpenFile path (Some h)) =
     w \<lparr> fsize := (fsize w)(h := 0), hint_end := (hint_end w)(h := 0) \<rparr>"
| "apply_event w ev = w"

definition rot_step ::
  "'t timelib \<Rightarrow> ('t, 'b) rot_op \<Rightarrow> Rotation \<Rightarrow> error + (event list \<times> Rotation)" where
  "rot_step lib op r =
     (case op of
        OpWrite env p \<Rightarrow>
          (case Rotation_Write lib env p r of
             Inl e \<Rightarrow> Inl e
           | Inr (res, evs, r') \<Rightarrow> Inr (evs, r'))
      | OpSync env \<Rightarrow>
          (case Rotation_Sync lib env r of
             Inl e \<Rightarrow> Inl e
           | Inr (res, evs, r') \<Rightarrow> Inr (evs, r')))"

fun rot_run ::
  "'t timelib \<Rightarrow> ('t, 'b) rot_op list \<Rightarrow> Rotation \<times> World \<Rightarrow> error + (Rotation \<times> World)" where
  "rot_run lib [] s = Inr s"
| "rot_run lib (op # ops) s =
     (case rot_step lib op (fst s) of
        Inl e \<Rightarrow> Inl e
      | Inr (evs, r') \<Rightarrow> rot_run lib ops (r', foldl apply_event (snd s) evs))"

subsection \<open>Predicates on sinks, events and histories\<close>

text \<open>The equation of the three counters.\<close>

definition counters_eq :: "Rotation \<Rightarrow> bool" where
  "counters_eq r \<longleftrightarrow> written r = synced r + dirty r"

text \<open>The sink after the first half of \<open>flushDirty\<close>, where the flush hint is given.\<close>

definition after_hint :: "bool \<Rightarrow> Rotation \<Rightarrow> Rotation" where
  "after_hint force r =
     (if PerSyncSize (cfg r) \<le>s dirty r \<or> force
      then r \<lparr> synced := synced r + dirty r, dirty := 0 \<rparr> else r)"

text \<open>A sink as \<open>prepare\<close> builds it: the buffer and the heap of backups are there.\<close>

definition sink_ok :: "Rotation \<Rightarrow> bool" where
  "sink_ok r \<longleftrightarrow> buf r \<noteq> None \<and> backups r \<noteq> None"

text \<open>The sink after \<open>fw\<close> more bytes have landed in the file.\<close>

definition bump :: "int64 \<Rightarrow> Rotation \<Rightarrow> Rotation" where
  "bump fw r = r \<lparr> dirty := dirty r + fw, written := written r + fw \<rparr>"

text \<open>
  A call attempts a rotation when it enters \<open>open\<close>, which starts with a rename when a file
  is open and with the creation of the directory otherwise.
\<close>

fun is_rotation_event :: "event \<Rightarrow> bool" where
  "is_rotation_event (EvRename a b ok) = True"
| "is_rotation_event (EvMkdirAll d ok) = True"
| "is_rotation_event (EvOpenFile a h) = True"
| "is_rotation_event ev = False"

definition rotation_attempted :: "event list \<Rightarrow> bool" where
  "rotation_attempted evs = list_ex is_rotation_event evs"

fun op_fw :: "('t, 'b) rot_op \<Rightarrow> int64" where
  "op_fw (OpWrite env p) = buf_fw env"
| "op_fw (OpSync env) = buf_fw env"

fun op_env :: "('t, 'b) rot_op \<Rightarrow> 't Env" where
  "op_env (OpWrite env p) = env"
| "op_env (OpSync env) = env"

fun rot_trace ::
  "'t timelib \<Rightarrow> ('t, 'b) rot_op list \<Rightarrow> Rotation \<Rightarrow> error + (event list \<times> Rotation)" where
  "rot_trace lib [] r = Inr ([], r)"
| "rot_trace lib (op # ops) r =
     (case rot_step lib op r of
        Inl e \<Rightarrow> Inl e
      | Inr (evs, r1) \<Rightarrow>
          (case rot_trace lib ops r1 of
             Inl e \<Rightarrow> Inl e
           | Inr (evs', r') \<Rightarrow> Inr (evs @ evs', r')))"

text \<open>
  \<open>below_max m acc ops\<close>: starting from \<open>written = acc\<close>, the bytes that the calls \<open>ops\<close>
  land in the file never bring \<open>written\<close> to \<open>m\<close>.
\<close>

fun below_max :: "int64 \<Rightarrow> int64 \<Rightarrow> ('t, 'b) rot_op list \<Rightarrow> bool" where
  "below_max m acc [] = True"
| "below_max m acc (op # ops) =
     (\<not> m \<le>s acc + op_fw op \<and> below_max m (acc + op_fw op) ops)"

text \<open>
  \<open>hint_exact r w\<close>: the buffer writes to the current file, and the range that a flush hint
  at offset \<open>synced\<close> with length \<open>dirty\<close> covers runs from the end of the last hint to the
  end of the file, that is, over the bytes of the file that were written and not yet hinted.
\<close>

definition hint_exact :: "Rotation \<Rightarrow> World \<Rightarrow> bool" where
  "hint_exact r w =
     (case r_f r of
        None \<Rightarrow> False
      | Some h \<Rightarrow>
          (case buf r of
             None \<Rightarrow> False
           | Some b \<Rightarrow> bio_f b = Some h \<and> synced r = hint_end w h
                       \<and> synced r + dirty r = fsize w h))"

text \<open>
  A call in which no step of a rotation fails, and in which the file system hands out a
  file other than the one that is open.
\<close>

definition env_ok :: "Rotation \<Rightarrow> 't Env \<Rightarrow> bool" where
  "env_ok r env \<longleftrightarrow>
     rename_ok env \<and> mkdir_ok env \<and> open_res env \<noteq> None \<and> open_res env \<noteq> r_f r"

fun healthy :: "'t timelib \<Rightarrow> ('t, 'b) rot_op list \<Rightarrow> Rotation \<Rightarrow> bool" where
  "healthy lib [] r = True"
| "healthy lib (op # ops) r =
     (env_ok r (op_env op)
      \<and> (case rot_step lib op r of
            Inl e \<Rightarrow> False
          | Inr (evs, r') \<Rightarrow> healthy lib ops r'))"


subsection \<open>A fragment of package time for concrete runs\<close>

text \<open>
  Ten instants, the seconds 0 to 9 of 2020-01-01T00:00 UTC, with what \<open>Format\<close>, \<open>Parse\<close> and
  \<open>Unix\<close> give for them under the layout \<open>backupTimeFmt\<close>.
\<close>

definition sample_format :: "nat \<Rightarrow> string" where
  "sample_format t = ''2020-01-01T00:00:0'' @ [''0123456789'' ! t] @ ''.000Z''"

definition sample_time :: "nat timelib" where
  "sample_time =
     \<lparr> UTC = (\<lambda>t. t),
       Format = (\<lambda>t layout. sample_format t),
       Parse = (\<lambda>layout s. case filter (\<lambda>t. sample_format t = s) [0..<10] of
                              [] \<Rightarrow> None | t # rest \<Rightarrow> Some t),
       Unix = (\<lambda>t. 1577836800 + of_nat t) \<rparr>"

definition sample_cfg :: Config where
  "sample_cfg =
     \<lparr> OutputPath = ''app.log'', MaxSize = 10, MaxBackups = 2, LocalTime = False,
       PerWriteSize = 4, PerSyncSize = 100 \<rparr>"

definition sample_sink :: Rotation where
  "sample_sink =
     \<lparr> cfg = sample_cfg, backups = Some [], r_f = Some 1, buf = Some \<lparr> bio_f = Some 1 \<rparr>,
       written = 0, dirty = 0, synced = 0 \<rparr>"

definition sample_env :: "bool \<Rightarrow> int64 \<Rightarrow> nat Env" where
  "sample_env ok n =
     \<lparr> now = 3, rename_ok = ok, mkdir_ok = True, open_res = Some 2, buf_fw = n \<rparr>"

definition sample_world :: World where
  "sample_world = \<lparr> fsize = (\<lambda>h. 0), hint_end = (\<lambda>h. 0) \<rparr>"
section \<open>Logger facade and drain loop (nanozap.go, bodypool.go, zapcore/entry.go)\<close>

text \<open>
  Modelled from the spec: the level type \<open>zapcore.Level\<close> is not among the sources. Its values
  are the severities the facade names, from the most verbose to the two highest, which carry a
  terminal action.
\<close>

datatype Level = DebugLevel | InfoLevel | WarnLevel | ErrorLevel | PanicLevel | FatalLevel

text \<open>
  The pooled event record of bodypool.go. The pool is the package variable \<open>_logBodyPool\<close>;
  \<open>get\<close> takes a body from the pool, or a new one when the pool is empty, and resets it.
\<close>

record logBody =
  lvl :: Level
  msg :: string
  reqid :: string

definition logBody_reset :: "logBody \<Rightarrow> logBody" where
  "logBody_reset b = b \<lparr> lvl := InfoLevel, msg := [], reqid := [] \<rparr>"

definition getLogBody :: "logBody list \<Rightarrow> logBody \<times> logBody list" where
  "getLogBody pool =
     (case pool of
        [] \<Rightarrow> (logBody_reset \<lparr> lvl = InfoLevel, msg = [], reqid = [] \<rparr>, [])
      | b # rest \<Rightarrow> (logBody_reset b, rest))"

text \<open>
  \<open>Entry\<close>, \<open>CheckWriteAction\<close> and \<open>CheckedEntry\<close> of zapcore/entry.go. The request
  identifier is the string that the facade passes. A checked entry from the pool is reset;
  the pool of checked entries itself is left out.
\<close>

record Entry =
  Level :: Level
  Time :: int64
  Message :: string
  ReqID :: string

datatype CheckWriteAction = WriteThenNoop | WriteThenPanic | WriteThenFatal

record 'c CheckedEntry =
  ce_Entry :: Entry
  ce_dirty :: bool
  should :: CheckWriteAction
  cores :: "'c list"

definition getCheckedEntry :: "'c CheckedEntry" where
  "getCheckedEntry =
     \<lparr> ce_Entry = \<lparr> Level = InfoLevel, Time = 0, Message = [], ReqID = [] \<rparr>,
       ce_dirty = False, should = WriteThenNoop, cores = [] \<rparr>"

definition AddCore :: "'c CheckedEntry option \<Rightarrow> Entry \<Rightarrow> 'c \<Rightarrow> 'c CheckedEntry option" where
  "AddCore ce ent core =
     (let ce1 = (case ce of None \<Rightarrow> getCheckedEntry \<lparr> ce_Entry := ent \<rparr> | Some c \<Rightarrow> c)
      in Some (ce1 \<lparr> cores := cores ce1 @ [core] \<rparr>))"

definition Should ::
  "'c CheckedEntry option \<Rightarrow> Entry \<Rightarrow> CheckWriteAction \<Rightarrow> 'c CheckedEntry option" where
  "Should ce ent action =
     (let ce1 = (case ce of None \<Rightarrow> getCheckedEntry \<lparr> ce_Entry := ent \<rparr> | Some c \<Rightarrow> c)
      in Some (ce1 \<lparr> should := action \<rparr>))"

text \<open>
  How a call ends: it returns, the drain loop sleeps, \<open>panic(msg)\<close>, \<open>os.Exit(code)\<close>, or a
  panic of the Go runtime.
\<close>

datatype outcome =
    Returned
  | Slept
  | Panicked string
  | Exited int
  | RuntimePanic error

text \<open>
  \<open>CheckedEntry.Write\<close>: the entry is written to every stored core (the errors are collected
  and dropped), then the terminal action is executed. The result is how the call ends and the
  writes it made, in order.
\<close>

definition CheckedEntry_Write :: "'c CheckedEntry option \<Rightarrow> outcome \<times> ('c \<times> Entry) list" where
  "CheckedEntry_Write ce =
     (case ce of
        None \<Rightarrow> (Returned, [])
      | Some c \<Rightarrow>
          if ce_dirty c then (Returned, [])
          else (case should c of
                  WriteThenPanic \<Rightarrow> Panicked (Message (ce_Entry c))
                | WriteThenFatal \<Rightarrow> Exited 1
                | WriteThenNoop \<Rightarrow> Returned,
                map (\<lambda>core. (core, ce_Entry c)) (cores c)))"

text \<open>
  Modelled from the spec: the interface \<open>zapcore.Core\<close> and its implementations are not among
  the sources. \<open>enabled(level)\<close> is a cheap pre-check; \<open>check(entry)\<close> decides which
  destinations accept the entry and returns none if nothing will write it. A core is given by
  its \<open>Enabled\<close> and by the destinations that accept an entry, which \<open>Check\<close> adds to the
  checked entry with \<open>AddCore\<close>.
\<close>

record 'c Core =
  Enabled :: "Level \<Rightarrow> bool"
  accepting :: "Entry \<Rightarrow> 'c list"

definition Core_Check ::
  "'c Core \<Rightarrow> Entry \<Rightarrow> 'c CheckedEntry option \<Rightarrow> 'c CheckedEntry option" where
  "Core_Check core ent ce = foldl (\<lambda>ce1 c. AddCore ce1 ent c) ce (accepting core ent)"

text \<open>
  The logger: its ring and the pool of event records. \<open>clock\<close> is the value of
  \<open>tsc.UnixNano()\<close>.
\<close>

record Logger =
  ring :: "logBody Ring"
  bodyPool :: "logBody list"

definition Logger_New :: "error + Logger" where
  "Logger_New =
     (case newRandRing 12 of
        Inl e \<Rightarrow> Inl e
      | Inr r \<Rightarrow> Inr \<lparr> ring = r, bodyPool = [] \<rparr>)"

definition Logger_check ::
  "'c Core \<Rightarrow> int64 \<Rightarrow> Level \<Rightarrow> string \<Rightarrow> string \<Rightarrow> 'c CheckedEntry option" where
  "Logger_check core clock level message rid =
     (let ent = \<lparr> Level = level, Time = clock, Message = message, ReqID = rid \<rparr>;
          ce = Core_Check core ent None
      in case level of
           PanicLevel \<Rightarrow> Should ce ent WriteThenPanic
         | FatalLevel \<Rightarrow> Should ce ent WriteThenFatal
         | _ \<Rightarrow> ce)"

definition Logger_Panic :: "string \<Rightarrow> string \<Rightarrow> Logger \<Rightarrow> outcome \<times> Logger" where
  "Logger_Panic rid message lg =
     (let lb = fst (getLogBody (bodyPool lg)) \<lparr> msg := message, lvl := PanicLevel, reqid := rid \<rparr>
      in case Push (Some lb) (ring lg, snd (getLogBody (bodyPool lg))) of
           Inl e \<Rightarrow> (RuntimePanic e, lg)
         | Inr (r', pool') \<Rightarrow> (Returned, lg \<lparr> ring := r', bodyPool := pool' \<rparr>))"

definition Logger_Fatal :: "string \<Rightarrow> string \<Rightarrow> Logger \<Rightarrow> outcome \<times> Logger" where
  "Logger_Fatal rid message lg =
     (let lb = fst (getLogBody (bodyPool lg)) \<lparr> msg := message, lvl := FatalLevel, reqid := rid \<rparr>
      in case Push (Some lb) (ring lg, snd (getLogBody (bodyPool lg))) of
           Inl e \<Rightarrow> (RuntimePanic e, lg)
         | Inr (r', pool') \<Rightarrow> (Returned, lg \<lparr> ring := r', bodyPool := pool' \<rparr>))"

text \<open>
  One pass of the body of \<open>writeLoop\<close> when the context is not done: a miss sleeps; a hit is
  checked, written, and the body is freed, unless the write ends the goroutine or the process.
\<close>

definition writeLoop_body ::
  "'c Core \<Rightarrow> int64 \<Rightarrow> Logger \<Rightarrow> outcome \<times> ('c \<times> Entry) list \<times> Logger" where
  "writeLoop_body core clock lg =
     (case TryPop (ring lg) of
        Inl e \<Rightarrow> (RuntimePanic e, [], lg)
      | Inr (b, ok, r') \<Rightarrow>
          if \<not> ok then (Slept, [], lg \<lparr> ring := r' \<rparr>)
          else (case b of
                  None \<Rightarrow> (RuntimePanic NilDereference, [], lg \<lparr> ring := r' \<rparr>)
                | Some lb \<Rightarrow>
                    let ce = Logger_check core clock (lvl lb) (msg lb) (reqid lb);
                        res = (if ce \<noteq> None then CheckedEntry_Write ce else (Returned, []))
                    in if fst res = Returned
                       then (Returned, snd res, lg \<lparr> ring := r', bodyPool := lb # bodyPool lg \<rparr>)
                       else (fst res, snd res, lg \<lparr> ring := r' \<rparr>)))"

subsection \<open>What the catalog of backups promises\<close>
















section \<open>Helper facts on 64-bit cursors\<close>

lemma unat_le16: "x \<le> (16::uint64) \<Longrightarrow> unat x \<le> 16"
  by (simp add: word_le_nat_alt)

lemma unat_2p: "k < 64 \<Longrightarrow> unat (2 ^ k :: uint64) = 2 ^ k"
proof -
  assume k: "k < 64"
  have "(2 ^ k :: uint64) = of_nat (2 ^ k)" by simp
  then have "unat (2 ^ k :: uint64) = (2 ^ k) mod 2 ^ 64"
    by (simp only: unat_of_nat) simp
  moreover have "(2::nat) ^ k < 2 ^ 64"
    using k power_strict_increasing [of k 64 "2::nat"] by simp
  ultimately show ?thesis by simp
qed

lemma unat_2p_minus_1: "k < 64 \<Longrightarrow> unat (2 ^ k - 1 :: uint64) = 2 ^ k - 1"
proof -
  assume k: "k < 64"
  have "(2 ^ k :: uint64) \<noteq> 0"
    using unat_2p [OF k] by (metis power_eq_0_iff unat_eq_zero zero_neq_numeral)
  then have "unat (2 ^ k - 1 :: uint64) = unat (2 ^ k :: uint64) - 1"
    by (rule unat_minus_one)
  then show ?thesis using unat_2p [OF k] by simp
qed

lemma unat_and_mask: "unat ((w::uint64) AND mask n) = unat w mod 2 ^ n"
proof -
  have "w AND mask n = take_bit n w" by (simp only: take_bit_eq_mask)
  then have "unat (w AND mask n) = take_bit n (unat w)" by (simp only: unsigned_take_bit_eq)
  then show ?thesis by (simp only: take_bit_eq_mod)
qed

lemma shift_mask: "push_bit k (1::uint64) - 1 = mask k"
  by (simp add: mask_eq_decr_exp)

section \<open>Ring construction\<close>

text \<open>
  C9. For every \<open>n\<close> with \<open>1 \<le> n \<le> 16\<close>, \<open>newRandRing n\<close> returns a ring with exactly
  \<open>2 ^ n\<close> slots and mask \<open>2 ^ n - 1\<close>; for \<open>n = 0\<close> or \<open>n > 16\<close> it panics and no ring
  is produced.
\<close>

theorem newRandRing_capacity:
  "(1 \<le> n \<and> n \<le> 16 \<longrightarrow>
      (\<exists>r :: 'a Ring. newRandRing n = Inr r \<and> length (buckets r) = 2 ^ unat n
          \<and> rmask r = 2 ^ unat n - 1 \<and> unat (rmask r) = 2 ^ unat n - 1))
   \<and> (n = 0 \<or> n > 16 \<longrightarrow> (newRandRing n :: error + 'a Ring) = Inl IllegalRingSize)"
proof (intro conjI impI)
  assume n: "1 \<le> n \<and> n \<le> 16"
  then have n0: "n \<noteq> 0" by auto
  from n have nle: "\<not> n > 16" by auto
  have k: "unat n < 64" using n unat_le16 [of n] by simp
  have u: "unat (2 ^ unat n - 1 :: uint64) = 2 ^ unat n - 1"
    by (rule unat_2p_minus_1 [OF k])
  show "\<exists>r :: 'a Ring. newRandRing n = Inr r \<and> length (buckets r) = 2 ^ unat n
          \<and> rmask r = 2 ^ unat n - 1 \<and> unat (rmask r) = 2 ^ unat n - 1"
    using n0 nle u by (simp add: newRandRing_def)
next
  assume "n = 0 \<or> n > 16"
  then show "(newRandRing n :: error + 'a Ring) = Inl IllegalRingSize"
    by (auto simp: newRandRing_def)
qed

theorem newRandRing_capacity_witness:
  "(\<exists>r :: nat Ring. newRandRing 3 = Inr r \<and> length (buckets r) = 8 \<and> rmask r = 7)
   \<and> (newRandRing 0 :: error + nat Ring) = Inl IllegalRingSize
   \<and> (newRandRing 17 :: error + nat Ring) = Inl IllegalRingSize"
  using newRandRing_capacity [of 3, where ?'a = nat]
    newRandRing_capacity [of 0, where ?'a = nat]
    newRandRing_capacity [of 17, where ?'a = nat] by auto


section \<open>Ring: auxiliary facts\<close>

lemma run_ops_append:
  "run_ops (xs @ ys) s = (case run_ops xs s of Inl e \<Rightarrow> Inl e | Inr s' \<Rightarrow> run_ops ys s')"
proof (induction xs arbitrary: s)
  case Nil
  then show ?case by simp
next
  case (Cons x xs)
  then show ?case by (cases x) (auto split: sum.splits)
qed

lemma ring_run_ops_append:
  "ring_run_ops (xs @ ys) r =
     (case ring_run_ops xs r of Inl e \<Rightarrow> Inl e | Inr r' \<Rightarrow> ring_run_ops ys r')"
proof (induction xs arbitrary: r)
  case Nil
  then show ?case by simp
next
  case (Cons x xs)
  then show ?case by (cases x) (auto split: sum.splits)
qed

lemma unat_of_nat64: "k \<le> 65536 \<Longrightarrow> unat (of_nat k :: uint64) = k"
  by (simp add: unat_of_nat)

lemma pow16: "N \<le> 16 \<Longrightarrow> (2::nat) ^ N \<le> 65536"
  using power_increasing [of N 16 "2::nat"] by simp

lemma idx_small:
  assumes "N \<le> 16" "k < 2 ^ N"
  shows "unat ((of_nat k :: uint64) AND mask N) = k"
proof -
  have "k \<le> 65536" using assms pow16 [of N] by simp
  then show ?thesis using assms by (simp add: unat_and_mask unat_of_nat64)
qed

lemma idx_cap:
  assumes "N \<le> 16"
  shows "unat ((of_nat (2 ^ N) :: uint64) AND mask N) = 0"
  using assms pow16 [of N] by (simp only: unat_and_mask unat_of_nat64) simp

lemma word_ge_small:
  assumes "i \<le> 65536" "j \<le> 65536"
  shows "((of_nat i :: uint64) \<ge> of_nat j) = (i \<ge> j)"
  using assms by (simp add: word_le_nat_alt unat_of_nat64)

lemma word_gt_small:
  assumes "i \<le> 65536" "j \<le> 65536"
  shows "((of_nat i :: uint64) > of_nat j) = (i > j)"
  using assms by (simp add: word_less_nat_alt unat_of_nat64)

lemma of_nat_pred: "0 < m \<Longrightarrow> (of_nat m - 1 :: uint64) = of_nat (m - 1)"
  by (cases m) simp_all

lemma replicate2: "replicate 2 x = [x, x]"
  by (simp add: numeral_2_eq_2)

text \<open>A ring with mask \<open>2 ^ N - 1\<close>, written out field by field.\<close>

definition mk :: "nat \<Rightarrow> uint64 \<Rightarrow> uint64 \<Rightarrow> uint64 \<Rightarrow> 'a option list \<Rightarrow> 'a Ring" where
  "mk N w c rd bs =
     \<lparr> rmask = mask N, writeIndex = w, writeIndexCache = c, readIndex = rd, buckets = bs \<rparr>"

lemma newRandRing_mk:
  assumes "newRandRing n = Inr r0"
  shows "r0 = mk (unat n) (- 1) 0 0 (replicate (2 ^ unat n) None) \<and> 1 \<le> unat n \<and> unat n \<le> 16"
proof -
  from assms have n: "\<not> n > 16" "n \<noteq> 0"
    by (auto simp: newRandRing_def split: if_splits)
  then have "n \<le> 16" by simp
  then have "unat n \<le> 16" by (rule unat_le16)
  moreover have "unat n \<noteq> 0" using n by (simp add: unat_eq_zero)
  ultimately show ?thesis using assms n
    by (auto simp: newRandRing_def mk_def mask_eq_decr_exp)
qed

lemma newRandRing_1:
  "newRandRing 1 = Inr \<lparr> rmask = 1, writeIndex = - 1, writeIndexCache = 0, readIndex = 0,
           buckets = [None, None] \<rparr>"
  by (simp add: newRandRing_def replicate2)

lemma Push_mk_empty_slot:
  assumes "N \<le> 16" "k < 2 ^ N" "length bs = 2 ^ N" "bs ! k = None"
  shows "Push d (mk N (of_nat k - 1) c rd bs, pool) = Inr (mk N (of_nat k) c rd (bs[k := d]), pool)"
  using assms idx_small [of N k] by (simp add: Push_def mk_def Let_def)

lemma pushes_prefix:
  assumes "N \<le> 16" "length xs \<le> 2 ^ N"
  shows "run_ops (map (\<lambda>x. OpPush (Some x)) xs) (mk N (- 1) c rd (replicate (2 ^ N) None), pool)
       = Inr (mk N (of_nat (length xs) - 1) c rd
                (map Some xs @ replicate (2 ^ N - length xs) None), pool)"
  using assms(2)
proof (induction xs rule: rev_induct)
  case Nil
  then show ?case by simp
next
  case (snoc x xs)
  let ?k = "length xs"
  let ?bs = "map Some xs @ replicate (2 ^ N - ?k) (None :: 'a option)"
  from snoc.prems have k: "?k < 2 ^ N" by simp
  have len: "length ?bs = 2 ^ N" using k by simp
  have none: "?bs ! ?k = None" using k by (simp add: nth_append)
  have upd: "?bs[?k := Some x] = map Some (xs @ [x]) @ replicate (2 ^ N - length (xs @ [x])) None"
  proof -
    obtain m where m: "2 ^ N - ?k = Suc m" using k by (metis Suc_diff_Suc)
    then have "2 ^ N - length (xs @ [x]) = m" by simp
    then show ?thesis using m by (simp add: list_update_append)
  qed
  have "run_ops (map (\<lambda>x. OpPush (Some x)) (xs @ [x])) (mk N (- 1) c rd (replicate (2 ^ N) None), pool)
      = (case Push (Some x) (mk N (of_nat ?k - 1) c rd ?bs, pool) of
           Inl e \<Rightarrow> Inl e | Inr s' \<Rightarrow> Inr s')"
    using snoc.IH k by (simp add: run_ops_append split: sum.splits)
  also have "\<dots> = Inr (mk N (of_nat ?k) c rd (?bs[?k := Some x]), pool)"
    using Push_mk_empty_slot [OF assms(1) k len none] by simp
  finally show ?case using upd by simp
qed

lemma TryPop_mk_stop:
  assumes "N \<le> 16" "W \<le> 2 ^ N" "c = 0 \<or> c = of_nat W"
  shows "TryPop (mk N (of_nat W) c (of_nat W) bs) = Inr (None, False, mk N (of_nat W) (of_nat W) (of_nat W) bs)"
proof -
  have "W \<le> 65536" using assms pow16 [of N] by simp
  then show ?thesis using assms(3)
    by (auto simp: TryPop_def mk_def Let_def)
qed

lemma TryPop_mk_pop:
  assumes "N \<le> 16" "W \<le> 2 ^ N" "c = 0 \<or> c = of_nat W" "i < W" "i < length bs" "bs ! i = Some y"
  shows "TryPop (mk N (of_nat W) c (of_nat i) bs)
       = Inr (Some y, True, mk N (of_nat W) (of_nat W) (of_nat (Suc i)) (bs[i := None]))"
proof -
  have W: "W \<le> 65536" using assms pow16 [of N] by simp
  then have i: "i \<le> 65536" using assms by simp
  have lt: "\<not> (of_nat i :: uint64) \<ge> of_nat W"
    using word_ge_small [OF i W] assms(4) by simp
  have idx: "unat ((of_nat i :: uint64) AND mask N) = i"
    using idx_small [of N i] assms by simp
  show ?thesis using assms(3,5,6) lt idx
    by (auto simp: TryPop_def mk_def Let_def)
qed

lemma drain_mk:
  assumes "N \<le> 16" "W \<le> 2 ^ N"
  shows "c = 0 \<or> c = of_nat W \<Longrightarrow> i + length ys = W \<Longrightarrow>
         drain (mk N (of_nat W) c (of_nat i) (replicate i None @ map Some ys @ rest))
       = Inr (map Some ys, mk N (of_nat W) (of_nat W) (of_nat W) (replicate W None @ rest))"
proof (induction ys arbitrary: i c)
  case Nil
  then have i: "i = W" by simp
  show ?case
    by (subst drain.simps)
      (simp add: i TryPop_mk_stop [OF assms Nil.prems(1), of "replicate W None @ rest"])
next
  case (Cons y ys)
  let ?bs = "replicate i None @ map Some (y # ys) @ rest"
  from Cons.prems have i: "i < W" by simp
  have il: "i < length ?bs" by simp
  have at: "?bs ! i = Some y" by (simp add: nth_append)
  have upd: "?bs[i := None] = replicate (Suc i) None @ map Some ys @ rest"
    by (simp add: list_update_append replicate_append_same)
  have pop: "TryPop (mk N (of_nat W) c (of_nat i) ?bs)
       = Inr (Some y, True, mk N (of_nat W) (of_nat W) (of_nat (Suc i))
                (replicate (Suc i) None @ map Some ys @ rest))"
    using TryPop_mk_pop [OF assms Cons.prems(1) i il at] upd by simp
  have "Suc i + length ys = W" using Cons.prems by simp
  then have IH: "drain (mk N (of_nat W) (of_nat W) (of_nat (Suc i))
                  (replicate (Suc i) None @ map Some ys @ rest))
       = Inr (map Some ys, mk N (of_nat W) (of_nat W) (of_nat W) (replicate W None @ rest))"
    using Cons.IH [of "of_nat W" "Suc i"] by simp
  have "drain (mk N (of_nat W) c (of_nat i) ?bs)
      = Inr (Some y # map Some ys, mk N (of_nat W) (of_nat W) (of_nat W) (replicate W None @ rest))"
    by (subst drain.simps) (simp only: pop IH sum.case prod.case if_True)
  then show ?case by simp
qed

lemma ring_Push_mk:
  assumes "N \<le> 16" "k < 2 ^ N" "length bs = 2 ^ N"
  shows "ring_Push d (mk N (of_nat k - 1) c rd bs) = Inr (mk N (of_nat k) c rd (bs[k := d]))"
  using assms idx_small [of N k] by (simp add: ring_Push_def mk_def Let_def)

lemma ring_pushes_prefix:
  assumes "N \<le> 16" "length xs \<le> 2 ^ N"
  shows "ring_run_ops (map (\<lambda>x. OpPush (Some x)) xs) (mk N (- 1) c rd (replicate (2 ^ N) None))
       = Inr (mk N (of_nat (length xs) - 1) c rd
                (map Some xs @ replicate (2 ^ N - length xs) None))"
  using assms(2)
proof (induction xs rule: rev_induct)
  case Nil
  then show ?case by simp
next
  case (snoc x xs)
  let ?k = "length xs"
  let ?bs = "map Some xs @ replicate (2 ^ N - ?k) (None :: 'a option)"
  from snoc.prems have k: "?k < 2 ^ N" by simp
  have len: "length ?bs = 2 ^ N" using k by simp
  have upd: "?bs[?k := Some x] = map Some (xs @ [x]) @ replicate (2 ^ N - length (xs @ [x])) None"
  proof -
    obtain m where m: "2 ^ N - ?k = Suc m" using k by (metis Suc_diff_Suc)
    then have "2 ^ N - length (xs @ [x]) = m" by simp
    then show ?thesis using m by (simp add: list_update_append)
  qed
  have "ring_run_ops (map (\<lambda>x. OpPush (Some x)) (xs @ [x])) (mk N (- 1) c rd (replicate (2 ^ N) None))
      = (case ring_Push (Some x) (mk N (of_nat ?k - 1) c rd ?bs) of
           Inl e \<Rightarrow> Inl e | Inr s' \<Rightarrow> Inr s')"
    using snoc.IH k by (simp add: ring_run_ops_append split: sum.splits)
  also have "\<dots> = Inr (mk N (of_nat ?k) c rd (?bs[?k := Some x]))"
    using ring_Push_mk [OF assms(1) k len] by simp
  finally show ?case using upd by simp
qed

lemma ring_TryPop_mk_stop:
  assumes "N \<le> 16" "W < 2 ^ N" "c = 0 \<or> c = of_nat W"
  shows "ring_TryPop (mk N (of_nat W) c (of_nat (Suc W)) bs)
       = Inr (None, False, mk N (of_nat W) (of_nat W) (of_nat (Suc W)) bs)"
proof -
  have W: "W \<le> 65536" "Suc W \<le> 65536" "0 \<le> (65536::nat)" using assms pow16 [of N] by simp_all
  have a: "(of_nat (Suc W) :: uint64) > of_nat W" using word_gt_small [OF W(2) W(1)] by simp
  have b: "(of_nat (Suc W) :: uint64) > 0" using word_gt_small [OF W(2) W(3)] by simp
  show ?thesis using assms(3) a b
    by (auto simp: ring_TryPop_def mk_def Let_def)
qed

lemma ring_TryPop_mk_pop:
  assumes "N \<le> 16" "W < 2 ^ N" "c = 0 \<or> c = of_nat W" "i \<le> W" "i < length bs" "bs ! i = Some y"
  shows "\<exists>c'. (c' = 0 \<or> c' = of_nat W) \<and>
         ring_TryPop (mk N (of_nat W) c (of_nat i) bs)
       = Inr (Some y, True, mk N (of_nat W) c' (of_nat (Suc i)) (bs[i := None]))"
proof -
  have W: "W \<le> 65536" using assms pow16 [of N] by simp
  then have i: "i \<le> 65536" using assms by simp
  have le: "\<not> (of_nat i :: uint64) > of_nat W"
    using word_gt_small [OF i W] assms(4) by simp
  have idx: "unat ((of_nat i :: uint64) AND mask N) = i"
    using idx_small [of N i] assms by simp
  show ?thesis
  proof (cases "(of_nat i :: uint64) > c")
    case True
    then show ?thesis using assms(3,5,6) le idx
      by (intro exI [of _ "of_nat W"]) (auto simp: ring_TryPop_def mk_def Let_def)
  next
    case False
    then show ?thesis using assms(3,5,6) le idx
      by (intro exI [of _ c]) (auto simp: ring_TryPop_def mk_def Let_def)
  qed
qed

lemma ring_drain_mk:
  assumes "N \<le> 16" "W < 2 ^ N"
  shows "c = 0 \<or> c = of_nat W \<Longrightarrow> i + length ys = Suc W \<Longrightarrow>
         ring_drain (mk N (of_nat W) c (of_nat i) (replicate i None @ map Some ys @ rest))
       = Inr (map Some ys, mk N (of_nat W) (of_nat W) (of_nat (Suc W)) (replicate (Suc W) None @ rest))"
proof (induction ys arbitrary: i c)
  case Nil
  then have i: "i = Suc W" by simp
  show ?case
    by (subst ring_drain.simps)
      (simp only: i ring_TryPop_mk_stop [OF assms Nil.prems(1), of "replicate (Suc W) None @ rest"]
         list.map append_Nil sum.case prod.case if_False)
next
  case (Cons y ys)
  let ?bs = "replicate i None @ map Some (y # ys) @ rest"
  from Cons.prems have i: "i \<le> W" by simp
  have il: "i < length ?bs" by simp
  have at: "?bs ! i = Some y" by (simp add: nth_append)
  have upd: "?bs[i := None] = replicate (Suc i) None @ map Some ys @ rest"
    by (simp add: list_update_append replicate_append_same)
  from ring_TryPop_mk_pop [OF assms Cons.prems(1) i il at] upd obtain c'
    where c': "c' = 0 \<or> c' = of_nat W"
      and pop: "ring_TryPop (mk N (of_nat W) c (of_nat i) ?bs)
       = Inr (Some y, True, mk N (of_nat W) c' (of_nat (Suc i))
                (replicate (Suc i) None @ map Some ys @ rest))"
    by auto
  have "Suc i + length ys = Suc W" using Cons.prems by simp
  from Cons.IH [OF c' this]
  have IH: "ring_drain (mk N (of_nat W) c' (of_nat (Suc i))
                  (replicate (Suc i) None @ map Some ys @ rest))
       = Inr (map Some ys, mk N (of_nat W) (of_nat W) (of_nat (Suc W)) (replicate (Suc W) None @ rest))" .
  have "ring_drain (mk N (of_nat W) c (of_nat i) ?bs)
      = Inr (Some y # map Some ys, mk N (of_nat W) (of_nat W) (of_nat (Suc W)) (replicate (Suc W) None @ rest))"
    by (subst ring_drain.simps) (simp only: pop IH sum.case prod.case if_True)
  then show ?case by simp
qed

lemma ring_drain_fresh:
  "ring_drain (mk N (- 1) 0 0 (replicate (2 ^ N) None))
     = Inr ([], mk N (- 1) 0 0 (replicate (2 ^ N) None))"
proof -
  have "(replicate (2 ^ N) (None :: 'a option))[0 := None] = replicate (2 ^ N) None"
    by (rule list_update_id [of "replicate (2 ^ N) None" 0, simplified])
  then show ?thesis
    by (subst ring_drain.simps) (simp add: ring_TryPop_def mk_def Let_def)
qed

subsection \<open>The invariant behind the cursors\<close>

text \<open>
  After \<open>k\<close> pushes: the slice has \<open>mask + 1\<close> slots, the read cursor plus the number of
  occupied slots is at most \<open>k\<close>, and the write cursor is \<open>k - 1\<close> modulo \<open>2 ^ 64\<close>.
\<close>

definition ring_inv :: "'a Ring \<Rightarrow> nat \<Rightarrow> bool" where
  "ring_inv r k \<longleftrightarrow>
     length (buckets r) = Suc (unat (rmask r))
     \<and> unat (readIndex r) + occupied (buckets r) \<le> k
     \<and> writeIndex r + 1 = of_nat k"

lemma idx_in_range:
  "length (buckets r) = Suc (unat (rmask r)) \<Longrightarrow> unat (x AND rmask r) < length (buckets r)"
proof -
  assume l: "length (buckets r) = Suc (unat (rmask r))"
  have "unat (x AND rmask r) \<le> unat (rmask r)"
    by (rule word_and_le1 [THEN word_le_nat_alt [THEN iffD1]])
  then show ?thesis using l by simp
qed

lemma unat_inc_le: "unat (x + 1 :: uint64) \<le> Suc (unat x)"
  by (simp add: unat_word_ariths)

lemma Push_inv:
  assumes "ring_inv r k"
  shows "\<exists>r' pool'. Push d (r, pool) = Inr (r', pool') \<and> ring_inv r' (Suc k)"
proof -
  let ?idx = "unat ((writeIndex r + 1) AND rmask r)"
  from assms have l: "length (buckets r) = Suc (unat (rmask r))" by (simp add: ring_inv_def)
  have i: "?idx < length (buckets r)" by (rule idx_in_range [OF l])
  have o: "occupied ((buckets r)[?idx := d]) \<le> Suc (occupied (buckets r))"
    by (rule occupied_store)
  show ?thesis using assms i o
    by (auto simp: Push_def Let_def ring_inv_def)
qed

lemma ring_Push_inv:
  assumes "ring_inv r k"
  shows "\<exists>r'. ring_Push d r = Inr r' \<and> ring_inv r' (Suc k)"
proof -
  let ?idx = "unat ((writeIndex r + 1) AND rmask r)"
  from assms have l: "length (buckets r) = Suc (unat (rmask r))" by (simp add: ring_inv_def)
  have i: "?idx < length (buckets r)" by (rule idx_in_range [OF l])
  have o: "occupied ((buckets r)[?idx := d]) \<le> Suc (occupied (buckets r))"
    by (rule occupied_store)
  show ?thesis using assms i o
    by (auto simp: ring_Push_def Let_def ring_inv_def)
qed

lemma slot_inv:
  assumes "ring_inv r1 k"
  defines "idx \<equiv> unat (readIndex r1 AND rmask r1)"
  shows "idx < length (buckets r1)
     \<and> (buckets r1 ! idx = None \<longrightarrow> ring_inv (r1 \<lparr> buckets := (buckets r1)[idx := None] \<rparr>) k)
     \<and> (\<forall>d. buckets r1 ! idx = Some d \<longrightarrow>
           ring_inv (r1 \<lparr> buckets := (buckets r1)[idx := None], readIndex := readIndex r1 + 1 \<rparr>) k)"
proof -
  from assms have l: "length (buckets r1) = Suc (unat (rmask r1))" by (simp add: ring_inv_def)
  have i: "idx < length (buckets r1)" unfolding idx_def by (rule idx_in_range [OF l])
  have a: "buckets r1 ! idx = None \<Longrightarrow> (buckets r1)[idx := None] = buckets r1"
    by (metis list_update_id)
  have b: "\<And>d. buckets r1 ! idx = Some d \<Longrightarrow>
      Suc (occupied ((buckets r1)[idx := None])) = occupied (buckets r1)"
    using occupied_clear [OF i] by simp
  have c: "unat (readIndex r1 + 1) \<le> Suc (unat (readIndex r1))" by (rule unat_inc_le)
  show ?thesis
  proof (intro conjI impI allI)
    show "idx < length (buckets r1)" by (rule i)
  next
    assume "buckets r1 ! idx = None"
    then show "ring_inv (r1 \<lparr> buckets := (buckets r1)[idx := None] \<rparr>) k"
      using a assms(1) by (simp add: ring_inv_def)
  next
    fix d assume "buckets r1 ! idx = Some d"
    then show "ring_inv (r1 \<lparr> buckets := (buckets r1)[idx := None], readIndex := readIndex r1 + 1 \<rparr>) k"
      using b [of d] c assms(1) by (simp add: ring_inv_def)
  qed
qed

lemma cache_inv: "ring_inv r k \<Longrightarrow> ring_inv (r \<lparr> writeIndexCache := c \<rparr>) k"
  by (simp add: ring_inv_def)

lemma TryPop_inv:
  assumes "ring_inv r k"
  shows "\<exists>d ok r'. TryPop r = Inr (d, ok, r') \<and> ring_inv r' k"
proof -
  define r1 where "r1 = (if readIndex r \<ge> writeIndexCache r
                then r \<lparr> writeIndexCache := writeIndex r \<rparr> else r)"
  have r1: "ring_inv r1 k" using assms by (simp add: r1_def cache_inv)
  show ?thesis using slot_inv [OF r1] r1
    by (auto simp: TryPop_def Let_def r1_def [symmetric] split: option.splits)
qed

lemma ring_TryPop_inv:
  assumes "ring_inv r k"
  shows "\<exists>d ok r'. ring_TryPop r = Inr (d, ok, r') \<and> ring_inv r' k"
proof -
  define r1 where "r1 = (if readIndex r > writeIndexCache r
                then r \<lparr> writeIndexCache := writeIndex r \<rparr> else r)"
  have r1: "ring_inv r1 k" using assms by (simp add: r1_def cache_inv)
  show ?thesis using slot_inv [OF r1] r1
    by (auto simp: ring_TryPop_def Let_def r1_def [symmetric] split: option.splits)
qed

lemma run_ops_inv:
  "ring_inv r k \<Longrightarrow>
     \<exists>r' pool'. run_ops ops (r, pool) = Inr (r', pool') \<and> ring_inv r' (k + pushes ops)"
proof (induction ops arbitrary: r pool k)
  case Nil
  then show ?case by simp
next
  case (Cons op ops)
  show ?case
  proof (cases op)
    case (OpPush d)
    from Push_inv [OF Cons.prems, of d pool] obtain r1 pool1
      where p: "Push d (r, pool) = Inr (r1, pool1)" and i: "ring_inv r1 (Suc k)" by blast
    from Cons.IH [OF i, of pool1] show ?thesis using p OpPush by simp
  next
    case OpTryPop
    from TryPop_inv [OF Cons.prems] obtain d ok r1
      where p: "TryPop r = Inr (d, ok, r1)" and i: "ring_inv r1 k" by blast
    from Cons.IH [OF i, of pool] show ?thesis using p OpTryPop by simp
  qed
qed

lemma ring_run_ops_inv:
  "ring_inv r k \<Longrightarrow>
     \<exists>r'. ring_run_ops ops r = Inr r' \<and> ring_inv r' (k + pushes ops)"
proof (induction ops arbitrary: r k)
  case Nil
  then show ?case by simp
next
  case (Cons op ops)
  show ?case
  proof (cases op)
    case (OpPush d)
    from ring_Push_inv [OF Cons.prems, of d] obtain r1
      where p: "ring_Push d r = Inr r1" and i: "ring_inv r1 (Suc k)" by blast
    from Cons.IH [OF i] show ?thesis using p OpPush by simp
  next
    case OpTryPop
    from ring_TryPop_inv [OF Cons.prems] obtain d ok r1
      where p: "ring_TryPop r = Inr (d, ok, r1)" and i: "ring_inv r1 k" by blast
    from Cons.IH [OF i] show ?thesis using p OpTryPop by simp
  qed
qed

lemma occupied_replicate: "occupied (replicate m None) = 0"
  by (simp add: occupied_def)

lemma fresh_inv:
  assumes "newRandRing n = Inr r0"
  shows "ring_inv r0 0"
proof -
  from newRandRing_mk [OF assms]
  have r0: "r0 = mk (unat n) (- 1) 0 0 (replicate (2 ^ unat n) None)" and n: "unat n \<le> 16"
    by simp_all
  have "unat (mask (unat n) :: uint64) = 2 ^ unat n - 1"
    using unat_2p_minus_1 [of "unat n"] n by (simp add: mask_eq_decr_exp)
  then show ?thesis
    by (simp add: r0 mk_def ring_inv_def occupied_replicate)
qed

lemma inv_cursor:
  assumes "ring_inv r k"
  shows "unat (readIndex r) \<le> k \<and> writeIndex r + 1 = of_nat k
       \<and> (k < 2 ^ 64 \<longrightarrow> readIndex r \<le> writeIndex r + 1)"
proof -
  from assms have a: "unat (readIndex r) \<le> k" and b: "writeIndex r + 1 = of_nat k"
    by (simp_all add: ring_inv_def)
  have "k < 2 ^ 64 \<Longrightarrow> unat (writeIndex r + 1) = k"
    by (simp add: b unat_of_nat)
  then show ?thesis using a b by (auto simp: word_le_nat_alt)
qed

section \<open>Ring: draining after pushes\<close>

text \<open>
  C1. Single-consumer drain completeness, evaluated on the ring of randring.go that the
  Logger uses: into a fresh ring of two slots one item is pushed; the consumer's first
  \<open>TryPop\<close> refreshes the cache to the write cursor 0, finds \<open>readIndex >= writeIndexCache\<close>
  and reports no data, so the drain observes nothing and the item stays in slot 0.
\<close>

theorem drain_strands_last_item:
  "newRandRing 1 = Inr \<lparr> rmask = 1, writeIndex = - 1, writeIndexCache = 0, readIndex = 0,
           buckets = [None, None :: nat option] \<rparr>
   \<and> Push (Some (7::nat)) (\<lparr> rmask = 1, writeIndex = - 1, writeIndexCache = 0, readIndex = 0,
           buckets = [None, None] \<rparr>, [])
     = Inr (\<lparr> rmask = 1, writeIndex = 0, writeIndexCache = 0, readIndex = 0,
           buckets = [Some 7, None] \<rparr>, [])
   \<and> drain \<lparr> rmask = 1, writeIndex = 0, writeIndexCache = 0, readIndex = 0,
           buckets = [Some (7::nat), None] \<rparr>
     = Inr ([], \<lparr> rmask = 1, writeIndex = 0, writeIndexCache = 0, readIndex = 0,
           buckets = [Some 7, None] \<rparr>)"
  by (simp add: newRandRing_1 Push_def TryPop_def Let_def drain.simps)

text \<open>
  The same for every fresh ring and every non-empty sequence of at most capacity items:
  the drain of randring.go returns all but the last item, which stays in its slot.
\<close>

lemma drain_misses_last:
  assumes "newRandRing n = Inr r0" and "xs \<noteq> []" and "length xs \<le> 2 ^ unat n"
  shows "\<exists>r1 r2. run_ops (map (\<lambda>x. OpPush (Some x)) xs) (r0, []) = Inr (r1, [])
          \<and> drain r1 = Inr (map Some (butlast xs), r2)
          \<and> buckets r2 ! (length xs - 1) = Some (last xs)"
proof -
  let ?N = "unat n" and ?M = "length xs"
  from newRandRing_mk [OF assms(1)]
  have r0: "r0 = mk ?N (- 1) 0 0 (replicate (2 ^ ?N) None)" and N: "?N \<le> 16"
    by simp_all
  have M: "0 < ?M" using assms(2) by simp
  have W: "?M - 1 \<le> 2 ^ ?N" using assms(3) by simp
  let ?rest = "Some (last xs) # replicate (2 ^ ?N - ?M) None"
  have split: "map Some xs = map Some (butlast xs) @ [Some (last xs)]"
    using assms(2) by (metis append_butlast_last_id list.simps(8,9) map_append)
  have pushed: "run_ops (map (\<lambda>x. OpPush (Some x)) xs) (r0, [])
      = Inr (mk ?N (of_nat (?M - 1)) 0 0 (replicate 0 None @ map Some (butlast xs) @ ?rest), [])"
    using pushes_prefix [OF N assms(3), of 0 0 "[]"] split
    by (simp add: r0 of_nat_pred [OF M])
  have "0 + length (butlast xs) = ?M - 1" by simp
  from drain_mk [OF N W _ this, of 0 ?rest]
  have drained: "drain (mk ?N (of_nat (?M - 1)) 0 0 (replicate 0 None @ map Some (butlast xs) @ ?rest))
      = Inr (map Some (butlast xs),
             mk ?N (of_nat (?M - 1)) (of_nat (?M - 1)) (of_nat (?M - 1))
               (replicate (?M - 1) None @ ?rest))"
    by simp
  have "(replicate (?M - 1) None @ ?rest) ! (?M - 1) = Some (last xs)"
    by (simp add: nth_append)
  then show ?thesis using pushed drained by (simp add: mk_def)
qed

text \<open>
  The ring of internal/randring, which compares with \<open>>\<close>, drains exactly the pushed items.
\<close>

lemma ring_drain_complete:
  assumes "newRandRing n = Inr r0" and "length xs \<le> 2 ^ unat n"
  shows "\<exists>r1 r2. ring_run_ops (map (\<lambda>x. OpPush (Some x)) xs) r0 = Inr r1
          \<and> ring_drain r1 = Inr (map Some xs, r2)
          \<and> buckets r2 = replicate (2 ^ unat n) None"
proof (cases "xs = []")
  case True
  from newRandRing_mk [OF assms(1)]
  have r0: "r0 = mk (unat n) (- 1) 0 0 (replicate (2 ^ unat n) None)" by simp
  have b: "buckets r0 = replicate (2 ^ unat n) None" by (simp add: r0 mk_def)
  have "ring_drain r0 = Inr ([], r0)" unfolding r0 by (rule ring_drain_fresh)
  then show ?thesis using True b by simp
next
  case False
  let ?N = "unat n" and ?M = "length xs"
  from newRandRing_mk [OF assms(1)]
  have r0: "r0 = mk ?N (- 1) 0 0 (replicate (2 ^ ?N) None)" and N: "?N \<le> 16"
    by simp_all
  have M: "0 < ?M" using False by simp
  have W: "?M - 1 < 2 ^ ?N" using assms(2) M by linarith
  let ?rest = "replicate (2 ^ ?N - ?M) (None :: 'a option)"
  have pushed: "ring_run_ops (map (\<lambda>x. OpPush (Some x)) xs) r0
      = Inr (mk ?N (of_nat (?M - 1)) 0 0 (replicate 0 None @ map Some xs @ ?rest))"
    using ring_pushes_prefix [OF N assms(2), of 0 0]
    by (simp add: r0 of_nat_pred [OF M])
  have "0 + length xs = Suc (?M - 1)" using M by simp
  from ring_drain_mk [OF N W _ this, of 0 ?rest]
  have drained: "ring_drain (mk ?N (of_nat (?M - 1)) 0 0 (replicate 0 None @ map Some xs @ ?rest))
      = Inr (map Some xs,
             mk ?N (of_nat (?M - 1)) (of_nat (?M - 1)) (of_nat (Suc (?M - 1)))
               (replicate (Suc (?M - 1)) None @ ?rest))"
    by simp
  have "replicate (Suc (?M - 1)) None @ ?rest = replicate (2 ^ ?N) None"
    using M assms(2) by (simp add: replicate_add [symmetric])
  then show ?thesis using pushed drained by (simp add: mk_def)
qed

section \<open>Ring: overwrite policy\<close>

lemma Push_full_slot:
  assumes "length (buckets r) = Suc (unat (rmask r))" and "None \<notin> set (buckets r)"
  shows "\<exists>old. buckets r ! unat ((writeIndex r + 1) AND rmask r) = Some old
          \<and> Push d (r, pool)
            = Inr (r \<lparr> writeIndex := writeIndex r + 1,
                       buckets := (buckets r)[unat ((writeIndex r + 1) AND rmask r) := d] \<rparr>,
                   old # pool)"
proof -
  let ?idx = "unat ((writeIndex r + 1) AND rmask r)"
  have i: "?idx < length (buckets r)" by (rule idx_in_range [OF assms(1)])
  then have "buckets r ! ?idx \<in> set (buckets r)" by (rule nth_mem)
  then have "buckets r ! ?idx \<noteq> None" using assms(2) by metis
  then obtain old where "buckets r ! ?idx = Some old" by blast
  then show ?thesis using i by (simp add: Push_def Let_def)
qed

lemma Push_mk_wrap:
  assumes "N \<le> 16" "length bs = 2 ^ N" "bs ! 0 = Some old"
  shows "Push d (mk N (of_nat (2 ^ N) - 1) c rd bs, pool)
       = Inr (mk N (of_nat (2 ^ N)) c rd (bs[0 := d]), old # pool)"
  using assms idx_cap [of N] by (simp add: Push_def mk_def Let_def)

lemma overwrite_scenario:
  assumes "newRandRing n = Inr r0"
  shows "\<exists>r1 r2. run_ops (map (\<lambda>x. OpPush (Some x)) [0..<Suc (2 ^ unat n)]) (r0, [])
             = Inr (r1, [0])
          \<and> drain r1 = Inr (map Some (2 ^ unat n # [1..<2 ^ unat n]), r2)
          \<and> buckets r2 = replicate (2 ^ unat n) None"
proof -
  let ?N = "unat n"
  let ?cap = "(2::nat) ^ ?N"
  from newRandRing_mk [OF assms]
  have r0: "r0 = mk ?N (- 1) 0 0 (replicate ?cap None)" and N: "?N \<le> 16"
    by simp_all
  have cap: "0 < ?cap" by simp
  have upt: "[0..<?cap] = 0 # [1..<?cap]" using cap by (simp add: upt_conv_Cons)
  have first: "run_ops (map (\<lambda>x. OpPush (Some x)) [0..<?cap]) (r0, [])
      = Inr (mk ?N (of_nat ?cap - 1) 0 0 (map Some [0..<?cap]), [])"
    using pushes_prefix [OF N, of "[0..<?cap]" 0 0 "[]"] by (simp add: r0)
  have last: "Push (Some ?cap) (mk ?N (of_nat ?cap - 1) 0 0 (map Some [0..<?cap]), [])
      = Inr (mk ?N (of_nat ?cap) 0 0 (replicate 0 None @ map Some (?cap # [1..<?cap]) @ []), [0])"
  proof -
    have "length (map Some [0..<?cap]) = 2 ^ ?N" by simp
    moreover have "map Some [0..<?cap] ! 0 = Some 0" using cap by (subst upt) simp
    ultimately have "Push (Some ?cap) (mk ?N (of_nat ?cap - 1) 0 0 (map Some [0..<?cap]), [])
      = Inr (mk ?N (of_nat (2 ^ ?N)) 0 0 ((map Some [0..<?cap])[0 := Some ?cap]), [0])"
      by (rule Push_mk_wrap [OF N])
    moreover have "(map Some [0..<?cap])[0 := Some ?cap] = Some ?cap # map Some [1..<?cap]"
      by (subst upt) simp
    ultimately show ?thesis by simp
  qed
  have pushed: "run_ops (map (\<lambda>x. OpPush (Some x)) [0..<Suc ?cap]) (r0, [])
      = Inr (mk ?N (of_nat ?cap) 0 0 (replicate 0 None @ map Some (?cap # [1..<?cap]) @ []), [0])"
    using first last by (simp add: run_ops_append)
  have "0 + length (?cap # [1..<?cap]) = ?cap" using cap by simp
  from drain_mk [OF N order_refl _ this, of 0 "[]"]
  have "drain (mk ?N (of_nat ?cap) 0 0 (replicate 0 None @ map Some (?cap # [1..<?cap]) @ []))
      = Inr (map Some (?cap # [1..<?cap]),
             mk ?N (of_nat ?cap) (of_nat ?cap) (of_nat ?cap) (replicate ?cap None @ []))"
    by simp
  then show ?thesis using pushed by (simp add: mk_def)
qed

text \<open>
  C4. Overwrite policy. \<open>Push\<close> into a full ring replaces the previous occupant of the slot
  and puts it back into the pool at once; and after pushing the values \<open>0 .. capacity\<close> into
  a fresh ring, the pool holds the value 0 and the drain yields the last \<open>capacity\<close> values in
  slot order: \<open>capacity, 1, 2, ..., capacity - 1\<close>, leaving every slot empty.
\<close>

theorem overwrite_policy:
  "(length (buckets r) = Suc (unat (rmask r)) \<and> None \<notin> set (buckets r) \<longrightarrow>
      (\<exists>old. buckets r ! unat ((writeIndex r + 1) AND rmask r) = Some old
          \<and> Push d (r, pool)
            = Inr (r \<lparr> writeIndex := writeIndex r + 1,
                       buckets := (buckets r)[unat ((writeIndex r + 1) AND rmask r) := d] \<rparr>,
                   old # pool)))
   \<and> (newRandRing n = Inr r0 \<longrightarrow>
      (\<exists>r1 r2. run_ops (map (\<lambda>x. OpPush (Some x)) [0..<Suc (2 ^ unat n)]) (r0, [])
             = Inr (r1, [0])
          \<and> drain r1 = Inr (map Some (2 ^ unat n # [1..<2 ^ unat n]), r2)
          \<and> buckets r2 = replicate (2 ^ unat n) None))"
  using Push_full_slot [of r d pool] overwrite_scenario [of n r0] by blast

theorem overwrite_policy_witness:
  "(\<exists>old. [Some (0::nat), Some 1] ! unat ((1 + 1 :: uint64) AND 1) = Some old
      \<and> Push (Some 2) (\<lparr> rmask = 1, writeIndex = 1, writeIndexCache = 0, readIndex = 0,
                          buckets = [Some 0, Some 1] \<rparr>, [])
        = Inr (\<lparr> rmask = 1, writeIndex = 2, writeIndexCache = 0, readIndex = 0,
                  buckets = [Some 2, Some 1] \<rparr>, [old]))
   \<and> (\<exists>r1 r2. run_ops [OpPush (Some 0), OpPush (Some 1), OpPush (Some (2::nat))]
         (\<lparr> rmask = 1, writeIndex = - 1, writeIndexCache = 0, readIndex = 0,
             buckets = [None, None] \<rparr>, []) = Inr (r1, [0])
       \<and> drain r1 = Inr ([Some 2, Some 1], r2) \<and> buckets r2 = [None, None])"
proof -
  let ?full = "\<lparr> rmask = 1, writeIndex = 1, writeIndexCache = 0, readIndex = 0,
                  buckets = [Some (0::nat), Some 1] \<rparr>"
  let ?fresh = "\<lparr> rmask = 1, writeIndex = - 1, writeIndexCache = 0, readIndex = 0,
                  buckets = [None, None :: nat option] \<rparr>"
  have upt: "[0..<Suc (2 ^ unat (1::uint64))] = [0, 1, 2]" "[1..<2 ^ unat (1::uint64)] = [1]"
    by (simp_all add: upt_rec)
  have "length (buckets ?full) = Suc (unat (rmask ?full)) \<and> None \<notin> set (buckets ?full)"
    by simp
  moreover have "newRandRing 1 = Inr ?fresh" by (rule newRandRing_1)
  ultimately show ?thesis
    using overwrite_policy [of ?full "Some 2" "[]" 1 ?fresh] upt
    by (simp add: replicate2)
qed

section \<open>Ring: cursors\<close>

text \<open>
  C5 as stated fails. On the ring of randring.go a \<open>TryPop\<close> on the fresh ring caches the
  initial write cursor \<open>2 ^ 64 - 1\<close>; after one push the next \<open>TryPop\<close> pops without a
  refresh, and the read cursor is 1 while the write cursor is 0. On the ring of
  internal/randring one push and one pop give the same cursors.
\<close>

theorem cursor_exceeds_write_counterexample:
  "newRandRing 1 = Inr \<lparr> rmask = 1, writeIndex = - 1, writeIndexCache = 0, readIndex = 0,
           buckets = [None, None :: nat option] \<rparr>
   \<and> run_ops [OpTryPop, OpPush (Some (7::nat)), OpTryPop]
       (\<lparr> rmask = 1, writeIndex = - 1, writeIndexCache = 0, readIndex = 0,
           buckets = [None, None] \<rparr>, [])
     = Inr (\<lparr> rmask = 1, writeIndex = 0, writeIndexCache = - 1, readIndex = 1,
           buckets = [None, None] \<rparr>, [])
   \<and> ring_run_ops [OpPush (Some (7::nat)), OpTryPop]
       \<lparr> rmask = 1, writeIndex = - 1, writeIndexCache = 0, readIndex = 0,
           buckets = [None, None] \<rparr>
     = Inr \<lparr> rmask = 1, writeIndex = 0, writeIndexCache = 0, readIndex = 1,
           buckets = [None, None] \<rparr>
   \<and> \<not> (1 :: uint64) \<le> 0"
  by (simp add: newRandRing_1 Push_def TryPop_def ring_Push_def ring_TryPop_def Let_def)

text \<open>
  C5, amended. From a fresh ring, every sequence of \<open>Push\<close> and \<open>TryPop\<close> calls runs without
  a panic, and afterwards the read cursor is at most the number of pushes, which is the write
  cursor plus one modulo \<open>2 ^ 64\<close>: as long as fewer than \<open>2 ^ 64\<close> items were pushed,
  \<open>readIndex \<le> writeIndex + 1\<close>. This holds for both rings.
\<close>

theorem cursor_invariant:
  assumes "newRandRing n = Inr r0"
  shows "(\<exists>r pool. run_ops ops (r0, []) = Inr (r, pool)
            \<and> unat (readIndex r) \<le> pushes ops
            \<and> writeIndex r + 1 = of_nat (pushes ops)
            \<and> (pushes ops < 2 ^ 64 \<longrightarrow> readIndex r \<le> writeIndex r + 1))
       \<and> (\<exists>r. ring_run_ops ops r0 = Inr r
            \<and> unat (readIndex r) \<le> pushes ops
            \<and> writeIndex r + 1 = of_nat (pushes ops)
            \<and> (pushes ops < 2 ^ 64 \<longrightarrow> readIndex r \<le> writeIndex r + 1))"
proof
  from run_ops_inv [OF fresh_inv [OF assms], of ops "[]"] obtain r pool
    where "run_ops ops (r0, []) = Inr (r, pool)" and "ring_inv r (pushes ops)" by auto
  then show "\<exists>r pool. run_ops ops (r0, []) = Inr (r, pool)
            \<and> unat (readIndex r) \<le> pushes ops
            \<and> writeIndex r + 1 = of_nat (pushes ops)
            \<and> (pushes ops < 2 ^ 64 \<longrightarrow> readIndex r \<le> writeIndex r + 1)"
    using inv_cursor by blast
next
  from ring_run_ops_inv [OF fresh_inv [OF assms], of ops] obtain r
    where "ring_run_ops ops r0 = Inr r" and "ring_inv r (pushes ops)" by auto
  then show "\<exists>r. ring_run_ops ops r0 = Inr r
            \<and> unat (readIndex r) \<le> pushes ops
            \<and> writeIndex r + 1 = of_nat (pushes ops)
            \<and> (pushes ops < 2 ^ 64 \<longrightarrow> readIndex r \<le> writeIndex r + 1)"
    using inv_cursor by blast
qed

theorem cursor_invariant_witness:
  "\<exists>r pool. run_ops [OpTryPop, OpPush (Some (7::nat)), OpTryPop]
       (\<lparr> rmask = 1, writeIndex = - 1, writeIndexCache = 0, readIndex = 0,
           buckets = [None, None] \<rparr>, []) = Inr (r, pool)
     \<and> unat (readIndex r) \<le> 1 \<and> writeIndex r + 1 = 1"
proof -
  from cursor_invariant [OF newRandRing_1, of "[OpTryPop, OpPush (Some 7), OpTryPop]"]
  show ?thesis by auto
qed
section \<open>Paths\<close>

lemma split_acc_plain:
  "CHR ''/'' \<notin> set x \<Longrightarrow> split_acc cur x = [rev cur @ x]"
  by (induction x arbitrary: cur) auto

lemma split_acc_last:
  "CHR ''/'' \<notin> set x \<Longrightarrow> split_acc cur (a @ CHR ''/'' # x) = split_acc cur a @ [x]"
proof (induction a arbitrary: cur)
  case Nil
  then show ?case using split_acc_plain [of x "[]"] by simp
next
  case (Cons c a)
  then show ?case by simp
qed

lemma join_slash_last:
  "join_slash (st @ [x]) = (if st = [] then x else join_slash st @ CHR ''/'' # x)"
proof (induction st rule: join_slash.induct)
  case 1
  then show ?case by simp
next
  case (2 s)
  then show ?case by simp
next
  case (3 s v va)
  then show ?case by simp
qed

lemma Base_last_element:
  assumes "x \<noteq> []" and "CHR ''/'' \<notin> set x" and "pre = [] \<or> last pre = CHR ''/''"
  shows "Base (pre @ x) = x"
proof -
  have l: "last x \<noteq> CHR ''/''" using assms(1,2) by (metis last_in_set)
  have "rev (pre @ x) = rev x @ rev pre" by simp
  moreover have "hd (rev x) \<noteq> CHR ''/''" using l assms(1) by (simp add: hd_rev)
  ultimately have d: "dropWhile (\<lambda>c. c = CHR ''/'') (rev (pre @ x)) = rev (pre @ x)"
    using assms(1) by (cases "rev x") auto
  have t0: "takeWhile (\<lambda>c. c \<noteq> CHR ''/'') (rev pre) = []"
    using assms(3) by (cases "rev pre") (auto simp: last_rev [symmetric] hd_rev)
  have "\<And>c. c \<in> set (rev x) \<Longrightarrow> c \<noteq> CHR ''/''" using assms(2) by auto
  from takeWhile_append2 [of "rev x" "\<lambda>c. c \<noteq> CHR ''/''" "rev pre", OF this] t0
  have "takeWhile (\<lambda>c. c \<noteq> CHR ''/'') (rev x @ rev pre) = rev x" by simp
  then show ?thesis using d assms(1) by (simp add: Base_def Let_def)
qed

lemma Base_Join:
  assumes "x \<noteq> []" and "CHR ''/'' \<notin> set x" and "x \<noteq> ''.''" and "x \<noteq> ''..''" and "d \<noteq> []"
  shows "Base (Join d x) = x"
proof -
  define rooted where "rooted = (hd (d @ CHR ''/'' # x) = CHR ''/'')"
  define st where "st = foldl (clean_step rooted) [] (split_slash d)"
  define out where "out = join_slash (foldl (clean_step rooted) [] (split_slash (d @ CHR ''/'' # x)))"
  have "foldl (clean_step rooted) [] (split_slash (d @ CHR ''/'' # x)) = st @ [x]"
    using assms(1,3,4) split_acc_last [OF assms(2), of "[]" d]
    by (simp add: split_slash_def st_def clean_step_def)
  then have out: "out = (if st = [] then x else join_slash st @ CHR ''/'' # x)"
    by (simp add: out_def join_slash_last)
  then have ne: "out \<noteq> []" using assms(1) by auto
  have "Clean (d @ CHR ''/'' # x) = (if rooted then CHR ''/'' # out else if out = [] then ''.'' else out)"
    unfolding Clean_def Let_def rooted_def [symmetric] out_def [symmetric] by simp
  then have c: "Clean (d @ CHR ''/'' # x)
      = (if rooted then CHR ''/'' # (if st = [] then x else join_slash st @ CHR ''/'' # x)
         else (if st = [] then x else join_slash st @ CHR ''/'' # x))"
    using ne out by simp
  have "\<exists>pre. Clean (d @ CHR ''/'' # x) = pre @ x \<and> (pre = [] \<or> last pre = CHR ''/'')"
  proof (cases rooted)
    case True
    show ?thesis
    proof (cases "st = []")
      case e: True
      have "Clean (d @ CHR ''/'' # x) = ''/'' @ x" using c True e by simp
      then show ?thesis by (metis last.simps)
    next
      case e: False
      have "Clean (d @ CHR ''/'' # x) = (CHR ''/'' # join_slash st @ ''/'') @ x"
        using c True e by simp
      then show ?thesis by (metis last_snoc append_Cons)
    qed
  next
    case False
    show ?thesis
    proof (cases "st = []")
      case e: True
      have "Clean (d @ CHR ''/'' # x) = [] @ x" using c False e by simp
      then show ?thesis by blast
    next
      case e: False
      have "Clean (d @ CHR ''/'' # x) = (join_slash st @ ''/'') @ x"
        using c False e by simp
      then show ?thesis by (metis last_snoc)
    qed
  qed
  then obtain pre where "Clean (d @ CHR ''/'' # x) = pre @ x" "pre = [] \<or> last pre = CHR ''/''"
    by blast
  then show ?thesis using Base_last_element [OF assms(1,2)] assms(5) by (simp add: Join_def)
qed

lemma Clean_nonempty: "Clean p \<noteq> []"
  by (simp add: Clean_def Let_def)

lemma Dir_nonempty: "Dir p \<noteq> []"
  by (simp add: Dir_def Clean_nonempty)

lemma Base_no_slash:
  assumes "Base p \<noteq> ''/''"
  shows "CHR ''/'' \<notin> set (Base p)"
proof (cases "p = []")
  case True
  then show ?thesis by (simp add: Base_def)
next
  case False
  define q where "q = rev (dropWhile (\<lambda>c. c = CHR ''/'') (rev p))"
  have b: "Base p = rev (takeWhile (\<lambda>c. c \<noteq> CHR ''/'') (rev q))"
    using assms False by (auto simp: Base_def Let_def q_def split: if_splits)
  show ?thesis unfolding b using set_takeWhileD by fastforce
qed

lemma Ext_no_slash: "CHR ''/'' \<notin> set (Ext p)"
proof -
  have "CHR ''/'' \<notin> set (takeWhile (\<lambda>c. c \<noteq> CHR ''/'') (rev p))"
    using set_takeWhileD by fastforce
  then have "CHR ''/'' \<notin> set (takeWhile (\<lambda>c. c \<noteq> CHR ''.'') (takeWhile (\<lambda>c. c \<noteq> CHR ''/'') (rev p)))"
    by (metis set_takeWhileD)
  then show ?thesis by (simp add: Ext_def Let_def)
qed

lemma split_acc_first:
  "CHR ''/'' \<notin> set s \<Longrightarrow>
     split_acc cur (s @ CHR ''/'' # rest) = (rev cur @ s) # split_acc [] rest"
  by (induction s arbitrary: cur) auto

lemma split_join:
  "st \<noteq> [] \<Longrightarrow> \<forall>e \<in> set st. CHR ''/'' \<notin> set e \<Longrightarrow> split_slash (join_slash st) = st"
proof (induction st rule: join_slash.induct)
  case 1
  then show ?case by simp
next
  case (2 s)
  then show ?case using split_acc_plain [of s "[]"] by (simp add: split_slash_def)
next
  case (3 s v va)
  then have "split_slash (join_slash (v # va)) = v # va" by simp
  then show ?case using 3(3) split_acc_first [of s "[]" "join_slash (v # va)"]
    by (simp add: split_slash_def)
qed

lemma split_acc_elems:
  "e \<in> set (split_acc cur p) \<Longrightarrow> CHR ''/'' \<notin> set cur \<Longrightarrow> CHR ''/'' \<notin> set e"
proof (induction p arbitrary: cur)
  case Nil
  then show ?case by simp
next
  case (Cons c p)
  show ?case
  proof (cases "c = CHR ''/''")
    case True
    then have "e = rev cur \<or> e \<in> set (split_acc [] p)" using Cons.prems(1) by simp
    then show ?thesis using Cons.prems(2) Cons.IH [of "[]"] by auto
  next
    case False
    then have "e \<in> set (split_acc (c # cur) p)" using Cons.prems(1) by simp
    from Cons.IH [OF this] False Cons.prems(2) show ?thesis by simp
  qed
qed

lemma clean_step_elems:
  "e \<in> set (clean_step r st y) \<Longrightarrow> e \<in> set st \<or> (e = y \<and> e \<noteq> [])"
  by (auto simp: clean_step_def split: if_splits dest: in_set_butlastD)

lemma clean_stack_elems:
  "e \<in> set (foldl (clean_step r) st ys) \<Longrightarrow> e \<in> set st \<or> (e \<in> set ys \<and> e \<noteq> [])"
proof (induction ys arbitrary: st)
  case Nil
  then show ?case by simp
next
  case (Cons y ys)
  from Cons.IH [of "clean_step r st y"] Cons.prems
  have "e \<in> set (clean_step r st y) \<or> (e \<in> set ys \<and> e \<noteq> [])" by simp
  then show ?case using clean_step_elems [of e r st y] by auto
qed

lemma clean_stack_fixed:
  "foldl (clean_step r) [] (take k (foldl (clean_step r) [] ys))
     = take k (foldl (clean_step r) [] ys)"
proof (induction ys arbitrary: k rule: rev_induct)
  case Nil
  then show ?case by simp
next
  case (snoc y ys)
  define st where "st = foldl (clean_step r) [] ys"
  have IH: "\<And>k. foldl (clean_step r) [] (take k st) = take k st"
    using snoc.IH by (simp add: st_def)
  have whole: "foldl (clean_step r) [] st = st" using IH [of "length st"] by simp
  have new: "foldl (clean_step r) [] (ys @ [y]) = clean_step r st y" by (simp add: st_def)
  have "clean_step r st y = st \<or> clean_step r st y = st @ [y]
      \<or> clean_step r st y = butlast st"
    by (simp add: clean_step_def)
  then consider "clean_step r st y = st" | "clean_step r st y = st @ [y]"
    | "clean_step r st y = butlast st"
    by blast
  then show ?case
  proof cases
    case 1
    then show ?thesis using IH new by simp
  next
    case 2
    show ?thesis
    proof (cases "k \<le> length st")
      case True
      then show ?thesis using IH 2 new by simp
    next
      case False
      then have "take k (st @ [y]) = st @ [y]" by simp
      moreover have "foldl (clean_step r) [] (st @ [y]) = st @ [y]" using whole 2 by simp
      ultimately show ?thesis using 2 new by simp
    qed
  next
    case 3
    have "take k (butlast st) = take (min k (length st - 1)) st"
      by (simp add: butlast_conv_take min.commute)
    then show ?thesis using IH 3 new by simp
  qed
qed

lemma clean_stack_whole:
  "foldl (clean_step r) [] (foldl (clean_step r) [] ys) = foldl (clean_step r) [] ys"
  using clean_stack_fixed [of r "length (foldl (clean_step r) [] ys)" ys] by simp

lemma Dir_last_element:
  assumes "CHR ''/'' \<notin> set x" and "pre = [] \<or> last pre = CHR ''/''"
  shows "Dir (pre @ x) = Clean pre"
proof -
  have "\<And>c. c \<in> set (rev x) \<Longrightarrow> c \<noteq> CHR ''/''" using assms(1) by auto
  from dropWhile_append2 [of "rev x" "\<lambda>c. c \<noteq> CHR ''/''" "rev pre", OF this]
  have "dropWhile (\<lambda>c. c \<noteq> CHR ''/'') (rev x @ rev pre) = dropWhile (\<lambda>c. c \<noteq> CHR ''/'') (rev pre)"
    by simp
  moreover have "dropWhile (\<lambda>c. c \<noteq> CHR ''/'') (rev pre) = rev pre"
    using assms(2) by (cases "rev pre") (auto simp: last_rev [symmetric] hd_rev)
  ultimately show ?thesis by (simp add: Dir_def)
qed

lemma join_slash_Nil:
  "\<forall>e \<in> set st. e \<noteq> [] \<Longrightarrow> (join_slash st = []) = (st = [])"
  by (induction st rule: join_slash.induct) auto

lemma join_slash_hd:
  "st \<noteq> [] \<Longrightarrow> hd st \<noteq> [] \<Longrightarrow> hd (join_slash st) = hd (hd st)"
  by (induction st rule: join_slash.induct) auto

lemma Clean_snoc:
  assumes "x \<noteq> []" and "CHR ''/'' \<notin> set x" and "x \<noteq> ''.''" and "x \<noteq> ''..''" and "d \<noteq> []"
    and "st = foldl (clean_step (hd d = CHR ''/'')) [] (split_slash d)"
  shows "Clean (d @ CHR ''/'' # x)
       = ((if hd d = CHR ''/'' then ''/'' else [])
            @ (if st = [] then [] else join_slash st @ ''/'')) @ x"
proof -
  define rooted where "rooted = (hd d = CHR ''/'')"
  define out where "out = join_slash (foldl (clean_step rooted) [] (split_slash (d @ CHR ''/'' # x)))"
  have hd: "(hd (d @ CHR ''/'' # x) = CHR ''/'') = rooted" using assms(5) by (simp add: rooted_def)
  have "foldl (clean_step rooted) [] (split_slash (d @ CHR ''/'' # x)) = st @ [x]"
    using assms(1,3,4,6) split_acc_last [OF assms(2), of "[]" d]
    by (simp add: split_slash_def rooted_def clean_step_def)
  then have out: "out = (if st = [] then x else join_slash st @ CHR ''/'' # x)"
    by (simp add: out_def join_slash_last)
  then have ne: "out \<noteq> []" using assms(1) by auto
  have "Clean (d @ CHR ''/'' # x) = (if rooted then CHR ''/'' # out else if out = [] then ''.'' else out)"
    unfolding Clean_def Let_def hd out_def [symmetric] by simp
  then show ?thesis using ne out by (simp add: rooted_def)
qed

lemma Dir_Join_Clean:
  assumes "x \<noteq> []" and "CHR ''/'' \<notin> set x" and "x \<noteq> ''.''" and "x \<noteq> ''..''"
  shows "Dir (Join (Clean y) x) = Clean y"
proof -
  define r where "r = (y \<noteq> [] \<and> hd y = CHR ''/'')"
  define sy where "sy = foldl (clean_step r) [] (split_slash y)"
  define d where "d = Clean y"
  have els: "\<forall>e \<in> set sy. e \<noteq> [] \<and> CHR ''/'' \<notin> set e"
  proof
    fix e assume "e \<in> set sy"
    then have "e \<in> set (split_slash y) \<and> e \<noteq> []"
      using clean_stack_elems [of e r "[]" "split_slash y"] by (simp add: sy_def)
    then show "e \<noteq> [] \<and> CHR ''/'' \<notin> set e"
      using split_acc_elems [of e "[]" y] by (simp add: split_slash_def)
  qed
  have fixed: "foldl (clean_step r) [] sy = sy" unfolding sy_def by (rule clean_stack_whole)
  have jn: "(join_slash sy = []) = (sy = [])" using els by (simp add: join_slash_Nil)
  have dne: "d \<noteq> []" by (simp add: d_def Clean_def Let_def)
  have dform: "d = (if y = [] then ''.''
                    else if r then CHR ''/'' # join_slash sy
                    else if sy = [] then ''.'' else join_slash sy)"
    using jn by (auto simp: d_def Clean_def Let_def r_def sy_def)
  define st where "st = foldl (clean_step (hd d = CHR ''/'')) [] (split_slash d)"
  define pre where "pre = (if hd d = CHR ''/'' then ''/'' else [])
            @ (if st = [] then [] else join_slash st @ ''/'')"
  have j: "Join d x = pre @ x"
    using Clean_snoc [OF assms dne st_def] dne by (simp add: Join_def pre_def)
  have pl: "pre = [] \<or> last pre = CHR ''/''" by (simp add: pre_def)
  have dj: "Dir (Join d x) = Clean pre"
    unfolding j by (rule Dir_last_element [OF assms(2) pl])
  consider (dot) "d = ''.''" | (root) "y \<noteq> []" "r" "d = CHR ''/'' # join_slash sy"
    | (rel) "y \<noteq> []" "\<not> r" "sy \<noteq> []" "d = join_slash sy"
    using dform by (auto split: if_splits)
  then have "Clean pre = d"
  proof cases
    case dot
    then have "st = []" by (simp add: st_def split_slash_def clean_step_def)
    then have "pre = []" using dot by (simp add: pre_def)
    then show ?thesis using dot by (simp add: Clean_def)
  next
    case root
    have hd: "hd d = CHR ''/''" using root by simp
    show ?thesis
    proof (cases "sy = []")
      case True
      then have dd: "d = ''/''" using root by simp
      then have "st = []" by (simp add: st_def split_slash_def clean_step_def)
      then have "pre = ''/''" using dd by (simp add: pre_def)
      then show ?thesis using dd by (simp add: Clean_def split_slash_def clean_step_def)
    next
      case False
      have sp: "split_slash (join_slash sy) = sy" using split_join [OF False] els by simp
      have spd: "split_slash d = [] # sy"
        using sp root by (simp add: split_slash_def)
      have "st = foldl (clean_step r) [] sy"
        using hd root spd by (simp add: st_def clean_step_def)
      then have st: "st = sy" using fixed by simp
      have pre: "pre = d @ ''/''" using hd st False root by (simp add: pre_def)
      have "split_slash pre = split_slash d @ [[]]"
        unfolding pre split_slash_def using split_acc_last [of "[]" "[]" d] by simp
      then have "foldl (clean_step True) [] (split_slash pre) = sy"
        using spd fixed root by (simp add: clean_step_def)
      moreover have "pre \<noteq> []" "hd pre = CHR ''/''" using pre hd dne by auto
      ultimately show ?thesis using root by (simp add: Clean_def Let_def)
    qed
  next
    case rel
    have hs: "hd sy \<noteq> []" "CHR ''/'' \<notin> set (hd sy)" using els rel(3) by auto
    have "hd (join_slash sy) = hd (hd sy)" by (rule join_slash_hd [OF rel(3) hs(1)])
    moreover have "hd (hd sy) \<in> set (hd sy)" using hs(1) by simp
    ultimately have hd: "hd d \<noteq> CHR ''/''" using hs(2) rel(4) by metis
    have sp: "split_slash d = sy" using split_join [OF rel(3)] els rel(4) by simp
    have "st = foldl (clean_step r) [] sy" using hd rel sp by (simp add: st_def)
    then have st: "st = sy" using fixed by simp
    have pre: "pre = d @ ''/''" using hd st rel by (simp add: pre_def)
    have "split_slash pre = split_slash d @ [[]]"
      unfolding pre split_slash_def using split_acc_last [of "[]" "[]" d] by simp
    then have "foldl (clean_step False) [] (split_slash pre) = sy"
      using sp fixed rel by (simp add: clean_step_def)
    moreover have "pre \<noteq> []" "hd pre \<noteq> CHR ''/''" using pre hd dne by auto
    ultimately show ?thesis using rel jn by (simp add: Clean_def Let_def)
  qed
  then show ?thesis using dj by (simp add: d_def)
qed

lemma Dir_Join_Dir:
  assumes "x \<noteq> []" and "CHR ''/'' \<notin> set x" and "x \<noteq> ''.''" and "x \<noteq> ''..''"
  shows "Dir (Join (Dir p) x) = Dir p"
  unfolding Dir_def [of p] by (rule Dir_Join_Clean [OF assms])

lemma parseTime_made:
  assumes "Base path = stem @ ''-'' @ stamp @ ext"
  shows "parseTime lib path (stem @ ''-'') ext
       = Inr (case Parse lib backupTimeFmt stamp of None \<Rightarrow> 0 | Some t \<Rightarrow> Unix lib t)"
proof -
  have "drop (Suc (length stem)) (take (Suc (length stem + length stamp)) (stem @ ''-'' @ stamp @ ext))
      = stamp" by simp
  then show ?thesis
    by (simp add: parseTime_def assms HasPrefix_def HasSuffix_def Let_def split: option.splits)
qed

section \<open>The slice of the catalog\<close>

lemma wrap64_small: "- (2 ^ 63) \<le> x \<Longrightarrow> x < 2 ^ 63 \<Longrightarrow> wrap64 x = x"
  by (simp add: wrap64_def)

lemma within_alloc_cap:
  "within_alloc maxb \<Longrightarrow> wrap64 (maxb * 2) = maxb * 2"
  by (rule wrap64_small) (simp_all add: within_alloc_def sizeof_Backup_def maxAlloc_def)

lemma make_Backups_within:
  "within_alloc maxb \<Longrightarrow> make_Backups ok (wrap64 (maxb * 2)) = (if ok then Inr [] else Inl OutOfMemory)"
  by (simp add: within_alloc_cap) (simp add: make_Backups_def within_alloc_def)

lemma make_Backups_result:
  "make_Backups ok c = Inr bs \<Longrightarrow> bs = [] \<and> ok \<and> 0 \<le> c \<and> sizeof_Backup * c \<le> maxAlloc"
  by (auto simp: make_Backups_def split: if_splits)

lemma listBackups_within:
  assumes "within_alloc maxb" and "scan_alloc_ok env"
  shows "listBackups lib env outputPath maxb =
     (case Backups_list lib env outputPath maxb [] of
        Inl e \<Rightarrow> Inl e
      | Inr (Some err, evs, bs) \<Rightarrow> Inr (Some err, evs, None)
      | Inr (None, evs, bs) \<Rightarrow> Inr (None, evs, Some bs))"
  using assms by (simp add: listBackups_def make_Backups_within)

lemma listBackups_returned:
  assumes "listBackups lib env outputPath maxb = Inr (err, evs, obs)"
  shows "scan_alloc_ok env \<and> 0 \<le> wrap64 (maxb * 2)
       \<and> sizeof_Backup * wrap64 (maxb * 2) \<le> maxAlloc
       \<and> (\<exists>bs. Backups_list lib env outputPath maxb [] = Inr (err, evs, bs)
              \<and> obs = (if err = None then Some bs else None))"
proof -
  from assms obtain bs0
    where m: "make_Backups (scan_alloc_ok env) (wrap64 (maxb * 2)) = Inr bs0"
    by (auto simp: listBackups_def split: sum.splits)
  note r = make_Backups_result [OF m]
  then have "bs0 = []" by simp
  then have "\<exists>bs. Backups_list lib env outputPath maxb [] = Inr (err, evs, bs)
              \<and> obs = (if err = None then Some bs else None)"
    using assms m by (auto simp: listBackups_def split: sum.splits option.splits)
  then show ?thesis using r by simp
qed

lemma listBackups_cap_panics:
  assumes "wrap64 (maxb * 2) < 0 \<or> sizeof_Backup * wrap64 (maxb * 2) > maxAlloc"
  shows "listBackups lib env outputPath maxb = Inl MakeSliceCapOutOfRange"
  using assms by (auto simp: listBackups_def make_Backups_def)

lemma listBackups_no_memory:
  assumes "0 \<le> wrap64 (maxb * 2)" and "sizeof_Backup * wrap64 (maxb * 2) \<le> maxAlloc"
    and "\<not> scan_alloc_ok env"
  shows "listBackups lib env outputPath maxb = Inl OutOfMemory"
  using assms by (auto simp: listBackups_def make_Backups_def)

lemma negative_max_panics:
  "listBackups lib env outputPath (- 1) = Inl MakeSliceCapOutOfRange"
  by (rule listBackups_cap_panics) (simp add: wrap64_def)

lemma largest_max_panics:
  "listBackups lib env outputPath (2 ^ 63 - 1) = Inl MakeSliceCapOutOfRange"
  by (rule listBackups_cap_panics) (simp add: wrap64_def)


section \<open>Rotating sink: what a rotation changes\<close>

lemma move_to_backups_keeps:
  assumes "move_to_backups lib env r = Inr (err, evs, r1)"
  shows "cfg r1 = cfg r \<and> r_f r1 = r_f r \<and> buf r1 = buf r \<and> written r1 = written r
       \<and> dirty r1 = dirty r \<and> synced r1 = synced r
       \<and> (backups r \<noteq> None \<longrightarrow> backups r1 \<noteq> None)
       \<and> (err \<noteq> None \<longrightarrow> \<not> rename_ok env \<and> r1 = r)
       \<and> (\<exists>b ok. hd evs = EvRename (OutputPath (cfg r)) b ok) \<and> evs \<noteq> []"
  using assms
  by (auto simp: move_to_backups_def Let_def split: if_splits option.splits prod.splits)

lemma create_file_keeps:
  assumes "create_file env evs r = (err, evs', r1)"
  shows "cfg r1 = cfg r \<and> buf r1 = buf r \<and> written r1 = written r \<and> backups r1 = backups r
       \<and> dirty r1 = dirty r \<and> synced r1 = synced r
       \<and> (err \<noteq> None \<longrightarrow> r1 = r \<and> (\<not> mkdir_ok env \<or> open_res env = None))
       \<and> (err = None \<longrightarrow> mkdir_ok env \<and> open_res env \<noteq> None \<and> r_f r1 = open_res env
             \<and> evs' = evs @ [EvMkdirAll (Dir (OutputPath (cfg r))) True,
                             EvOpenFile (OutputPath (cfg r)) (open_res env)])"
  using assms
  by (auto simp: create_file_def Let_def split: if_splits option.splits)

lemma Rotation_open_keeps:
  assumes "Rotation_open lib env r = Inr (err, evs, r2)"
  shows "cfg r2 = cfg r \<and> buf r2 = buf r \<and> written r2 = written r
       \<and> dirty r2 = dirty r \<and> synced r2 = synced r
       \<and> (backups r \<noteq> None \<longrightarrow> backups r2 \<noteq> None)
       \<and> (err \<noteq> None \<longrightarrow> r_f r2 = r_f r)
       \<and> (err = None \<longrightarrow> r_f r2 = open_res env \<and> open_res env \<noteq> None)"
proof (cases "r_f r \<noteq> None")
  case False
  then have "create_file env [] r = (err, evs, r2)"
    using assms by (simp add: Rotation_open_def)
  from create_file_keeps [OF this] show ?thesis by auto
next
  case True
  then obtain e1 evs1 r1 where m: "move_to_backups lib env r = Inr (e1, evs1, r1)"
    using assms by (auto simp: Rotation_open_def split: sum.splits)
  note k1 = move_to_backups_keeps [OF m]
  show ?thesis
  proof (cases e1)
    case (Some a)
    then have "err = e1" "r2 = r1" using assms True m by (auto simp: Rotation_open_def)
    then show ?thesis using k1 Some by auto
  next
    case None
    then have "create_file env evs1 r1 = (err, evs, r2)"
      using assms True m by (auto simp: Rotation_open_def)
    from create_file_keeps [OF this] show ?thesis using k1 by auto
  qed
qed

lemma after_hint_keeps:
  "cfg (after_hint force r) = cfg r \<and> r_f (after_hint force r) = r_f r
   \<and> buf (after_hint force r) = buf r \<and> backups (after_hint force r) = backups r
   \<and> written (after_hint force r) = written r
   \<and> synced (after_hint force r) + dirty (after_hint force r) = synced r + dirty r"
  by (simp add: after_hint_def)

lemma flushDirty_no_rotation:
  assumes "\<not> MaxSize (cfg r) \<le>s written r"
  shows "flushDirty lib env force r
       = Inr (if PerSyncSize (cfg r) \<le>s dirty r \<or> force
              then [EvFlushHint (r_f r) (synced r) (dirty r)] else [],
              after_hint force r)"
  using assms by (simp add: flushDirty_def after_hint_def Let_def)

lemma flushDirty_rotation:
  assumes "MaxSize (cfg r) \<le>s written r"
    and "flushDirty lib env force r = Inr (evs, r')"
  shows "\<exists>err evs2 r2. Rotation_open lib env (after_hint force r) = Inr (err, evs2, r2)
       \<and> written r' = 0 \<and> dirty r' = 0 \<and> synced r' = 0
       \<and> cfg r' = cfg r \<and> r_f r' = r_f r2 \<and> backups r' = backups r2
       \<and> (err \<noteq> None \<longrightarrow> buf r' = buf r
            \<and> evs = (if PerSyncSize (cfg r) \<le>s dirty r \<or> force
                      then [EvFlushHint (r_f r) (synced r) (dirty r)] else []) @ evs2)
       \<and> (err = None \<longrightarrow> (\<exists>b. buf r = Some b \<and> buf r' = Some (bufIO_reset b (r_f r2)))
            \<and> evs = (if PerSyncSize (cfg r) \<le>s dirty r \<or> force
                      then [EvFlushHint (r_f r) (synced r) (dirty r)] else []) @ evs2
                    @ [EvFlushHint (r_f r) 0 (MaxSize (cfg r)),
                       EvDropCache (r_f r) 0 (MaxSize (cfg r)), EvClose (r_f r)])"
proof -
  let ?r1 = "after_hint force r"
  have m: "MaxSize (cfg ?r1) \<le>s written ?r1" using assms(1) after_hint_keeps by metis
  from assms(2) m obtain err evs2 r2 where o: "Rotation_open lib env ?r1 = Inr (err, evs2, r2)"
    by (auto simp: flushDirty_def after_hint_def Let_def split: sum.splits if_splits)
  note k = Rotation_open_keeps [OF o] after_hint_keeps [of force r]
  show ?thesis
  proof (cases err)
    case (Some a)
    then show ?thesis using assms(2) m o k
      by (auto simp: flushDirty_def after_hint_def Let_def split: if_splits)
  next
    case None
    then show ?thesis using assms(2) m o k
      by (auto simp: flushDirty_def after_hint_def Let_def split: if_splits option.splits)
  qed
qed

lemma flushDirty_counters:
  assumes "counters_eq r" and "flushDirty lib env force r = Inr (evs, r')"
  shows "counters_eq r'"
proof (cases "MaxSize (cfg r) \<le>s written r")
  case True
  from flushDirty_rotation [OF True assms(2)] show ?thesis by (auto simp: counters_eq_def)
next
  case False
  from flushDirty_no_rotation [OF False, of lib env force] assms
  show ?thesis using after_hint_keeps [of force r] by (auto simp: counters_eq_def)
qed

subsection \<open>No panic on a constructed sink\<close>

lemma heap_Push_nonempty: "heap_Push bs x \<noteq> []"
proof -
  have "length (heap_Push bs x) = Suc (length bs)" by (simp add: heap_Push_def length_up)
  then show ?thesis by auto
qed

lemma heap_Pop_nonempty: "bs \<noteq> [] \<Longrightarrow> \<exists>v bs'. heap_Pop bs = (Some v, bs')"
  by (simp add: heap_Pop_def Let_def)

lemma move_to_backups_total:
  assumes "backups r \<noteq> None"
  shows "\<exists>err evs r1. move_to_backups lib env r = Inr (err, evs, r1)"
proof -
  from assms obtain bs where bs: "backups r = Some bs" by auto
  let ?x = "\<lparr> ts = snd (makeBackupFP lib (OutputPath (cfg r)) (LocalTime (cfg r)) (now env)),
              fp = fst (makeBackupFP lib (OutputPath (cfg r)) (LocalTime (cfg r)) (now env)) \<rparr>"
  from heap_Pop_nonempty [OF heap_Push_nonempty [of bs ?x]]
  obtain v bs' where "heap_Pop (heap_Push bs ?x) = (Some v, bs')" by blast
  then show ?thesis using bs by (simp add: move_to_backups_def Let_def)
qed

lemma Rotation_open_total:
  assumes "backups r \<noteq> None"
  shows "\<exists>err evs r2. Rotation_open lib env r = Inr (err, evs, r2)"
proof (cases "r_f r \<noteq> None")
  case False
  then show ?thesis by (cases "create_file env [] r") (simp add: Rotation_open_def)
next
  case True
  from move_to_backups_total [OF assms, of lib env]
  obtain e1 evs1 r1 where m: "move_to_backups lib env r = Inr (e1, evs1, r1)" by blast
  show ?thesis
  proof (cases e1)
    case None
    then show ?thesis using True m
      by (cases "create_file env evs1 r1") (simp add: Rotation_open_def)
  next
    case (Some a)
    then show ?thesis using True m by (simp add: Rotation_open_def)
  qed
qed

lemma flushDirty_total:
  assumes "sink_ok r"
  shows "\<exists>evs r'. flushDirty lib env force r = Inr (evs, r') \<and> sink_ok r'"
proof (cases "MaxSize (cfg r) \<le>s written r")
  case False
  from flushDirty_no_rotation [OF False, of lib env force] assms after_hint_keeps [of force r]
  show ?thesis by (auto simp: sink_ok_def)
next
  case True
  let ?r1 = "after_hint force r"
  have b: "backups ?r1 \<noteq> None" "buf ?r1 \<noteq> None"
    using assms after_hint_keeps [of force r] by (auto simp: sink_ok_def)
  from Rotation_open_total [OF b(1), of lib env]
  obtain err evs2 r2 where o: "Rotation_open lib env ?r1 = Inr (err, evs2, r2)" by blast
  note k = Rotation_open_keeps [OF o]
  have m: "MaxSize (cfg ?r1) \<le>s written ?r1" using True after_hint_keeps by metis
  obtain b0 where b0: "buf r2 = Some b0" using k b by auto
  have "\<exists>evs r'. flushDirty lib env force r = Inr (evs, r')"
    using m o b0 by (cases err) (auto simp: flushDirty_def after_hint_def Let_def)
  then obtain evs r' where f: "flushDirty lib env force r = Inr (evs, r')" by blast
  from flushDirty_rotation [OF True f] obtain err' evs2' r2'
    where o': "Rotation_open lib env ?r1 = Inr (err', evs2', r2')"
      and bk: "backups r' = backups r2'"
      and b1: "err' \<noteq> None \<longrightarrow> buf r' = buf r"
      and b2: "err' = None \<longrightarrow> (\<exists>b. buf r = Some b \<and> buf r' = Some (bufIO_reset b (r_f r2')))"
    by blast
  from o o' have same: "r2' = r2" by simp
  have "backups r' \<noteq> None" using bk same k b by simp
  moreover have "buf r' \<noteq> None" using b1 b2 assms by (cases err') (auto simp: sink_ok_def)
  ultimately have "sink_ok r'" by (simp add: sink_ok_def)
  then show ?thesis using f by blast
qed

subsection \<open>Write and Sync\<close>

lemma Rotation_Write_unfold:
  assumes "buf r = Some b"
  shows "Rotation_Write lib env p r =
     (if buf_fw env = 0
      then Inr ((length p, None), [EvFileWrite (bio_f b) 0], r)
      else case flushDirty lib env False
                  (r \<lparr> dirty := dirty r + buf_fw env, written := written r + buf_fw env \<rparr>) of
             Inl e \<Rightarrow> Inl e
           | Inr (evs, r2) \<Rightarrow>
               Inr ((length p, None), EvFileWrite (bio_f b) (buf_fw env) # evs, r2))"
  using assms by (auto simp: Rotation_Write_def bufIO_write_def Let_def split: sum.splits)

lemma Rotation_Sync_unfold:
  assumes "buf r = Some b"
  shows "Rotation_Sync lib env r =
     (case flushDirty lib env True
                  (r \<lparr> dirty := dirty r + buf_fw env, written := written r + buf_fw env \<rparr>) of
        Inl e \<Rightarrow> Inl e
      | Inr (evs, r2) \<Rightarrow> Inr (None, EvFileWrite (bio_f b) (buf_fw env) # evs, r2))"
  using assms by (auto simp: Rotation_Sync_def bufIO_flush_def Let_def split: sum.splits)

lemma Rotation_Write_result:
  assumes "Rotation_Write lib env p r = Inr (res, evs, r')"
  shows "res = (length p, None)"
  using assms
  by (auto simp: Rotation_Write_def Let_def split: option.splits if_splits sum.splits)

lemma Rotation_Sync_result:
  assumes "Rotation_Sync lib env r = Inr (err, evs, r')"
  shows "err = None"
  using assms
  by (auto simp: Rotation_Sync_def Let_def split: option.splits if_splits sum.splits)

lemma bump_keeps:
  "cfg (bump fw r) = cfg r \<and> r_f (bump fw r) = r_f r \<and> buf (bump fw r) = buf r
   \<and> backups (bump fw r) = backups r \<and> written (bump fw r) = written r + fw
   \<and> dirty (bump fw r) = dirty r + fw \<and> synced (bump fw r) = synced r"
  by (simp add: bump_def)

lemma bump_counters: "counters_eq r \<Longrightarrow> counters_eq (bump fw r)"
  by (simp add: counters_eq_def bump_def)

lemma bump_ok: "sink_ok r \<Longrightarrow> sink_ok (bump fw r)"
  by (simp add: sink_ok_def bump_def)

lemma rot_step_total:
  assumes "sink_ok r" and "counters_eq r"
  shows "\<exists>evs r'. rot_step lib op r = Inr (evs, r') \<and> sink_ok r' \<and> counters_eq r'"
proof -
  from assms(1) obtain b where b: "buf r = Some b" by (auto simp: sink_ok_def)
  show ?thesis
  proof (cases op)
    case (OpWrite env p)
    show ?thesis
    proof (cases "buf_fw env = 0")
      case True
      then show ?thesis using OpWrite assms b
        by (simp add: rot_step_def Rotation_Write_unfold [OF b])
    next
      case False
      from flushDirty_total [OF bump_ok [OF assms(1)], of lib env False "buf_fw env"]
      obtain evs r' where f: "flushDirty lib env False (bump (buf_fw env) r) = Inr (evs, r')"
        and ok: "sink_ok r'" by blast
      from flushDirty_counters [OF bump_counters [OF assms(2)] f] have "counters_eq r'" .
      then show ?thesis using OpWrite False f ok
        by (simp add: rot_step_def Rotation_Write_unfold [OF b] bump_def)
    qed
  next
    case (OpSync env)
    from flushDirty_total [OF bump_ok [OF assms(1)], of lib env True "buf_fw env"]
    obtain evs r' where f: "flushDirty lib env True (bump (buf_fw env) r) = Inr (evs, r')"
      and ok: "sink_ok r'" by blast
    from flushDirty_counters [OF bump_counters [OF assms(2)] f] have "counters_eq r'" .
    then show ?thesis using OpSync f ok
      by (simp add: rot_step_def Rotation_Sync_unfold [OF b] bump_def)
  qed
qed

lemma rot_run_total:
  "sink_ok r \<Longrightarrow> counters_eq r \<Longrightarrow>
     \<exists>r' w'. rot_run lib ops (r, w) = Inr (r', w') \<and> sink_ok r' \<and> counters_eq r'"
proof (induction ops arbitrary: r w)
  case Nil
  then show ?case by simp
next
  case (Cons op ops)
  from rot_step_total [OF Cons.prems, of lib op]
  obtain evs r1 where s: "rot_step lib op r = Inr (evs, r1)"
    and ok: "sink_ok r1" "counters_eq r1" by blast
  from Cons.IH [OF ok, of "foldl apply_event w evs"] show ?case using s by simp
qed

lemma Rotation_Write_total:
  assumes "sink_ok r"
  shows "\<exists>evs r'. Rotation_Write lib env p r = Inr ((length p, None), evs, r')"
proof -
  from assms obtain b where b: "buf r = Some b" by (auto simp: sink_ok_def)
  from flushDirty_total [OF bump_ok [OF assms], of lib env False "buf_fw env"]
  obtain evs r' where "flushDirty lib env False (bump (buf_fw env) r) = Inr (evs, r')" by blast
  then show ?thesis by (simp add: Rotation_Write_unfold [OF b] bump_def)
qed

lemma Rotation_Sync_total:
  assumes "sink_ok r"
  shows "\<exists>evs r'. Rotation_Sync lib env r = Inr (None, evs, r')"
proof -
  from assms obtain b where b: "buf r = Some b" by (auto simp: sink_ok_def)
  from flushDirty_total [OF bump_ok [OF assms], of lib env True "buf_fw env"]
  obtain evs r' where "flushDirty lib env True (bump (buf_fw env) r) = Inr (evs, r')" by blast
  then show ?thesis by (simp add: Rotation_Sync_unfold [OF b] bump_def)
qed

subsection \<open>Which calls attempt a rotation\<close>

lemma rotation_attempted_append:
  "rotation_attempted (xs @ ys) \<longleftrightarrow> rotation_attempted xs \<or> rotation_attempted ys"
  by (auto simp: rotation_attempted_def list_ex_iff)

lemma create_file_attempted:
  "create_file env evs r = (err, evs', r1) \<Longrightarrow> rotation_attempted evs'"
  by (auto simp: create_file_def Let_def rotation_attempted_def split: if_splits option.splits)

lemma move_to_backups_attempted:
  "move_to_backups lib env r = Inr (err, evs, r1) \<Longrightarrow> rotation_attempted evs"
  by (auto simp: move_to_backups_def Let_def rotation_attempted_def
      split: if_splits option.splits prod.splits)

lemma Rotation_open_attempted:
  assumes "Rotation_open lib env r = Inr (err, evs, r2)"
  shows "rotation_attempted evs"
proof (cases "r_f r \<noteq> None")
  case False
  then have "create_file env [] r = (err, evs, r2)"
    using assms by (simp add: Rotation_open_def)
  then show ?thesis by (rule create_file_attempted)
next
  case True
  then obtain e1 evs1 r1 where m: "move_to_backups lib env r = Inr (e1, evs1, r1)"
    using assms by (auto simp: Rotation_open_def split: sum.splits)
  show ?thesis
  proof (cases e1)
    case (Some a)
    then have "evs = evs1" using assms True m by (auto simp: Rotation_open_def)
    then show ?thesis using move_to_backups_attempted [OF m] by simp
  next
    case None
    then have "create_file env evs1 r1 = (err, evs, r2)"
      using assms True m by (auto simp: Rotation_open_def)
    then show ?thesis by (rule create_file_attempted)
  qed
qed

lemma Rotation_open_fails:
  assumes "Rotation_open lib env r = Inr (err, evs, r2)" and "r_f r \<noteq> None"
    and "\<not> rename_ok env \<or> \<not> mkdir_ok env \<or> open_res env = None"
  shows "err \<noteq> None"
proof (cases "rename_ok env")
  case False
  then show ?thesis using assms(1,2)
    by (auto simp: Rotation_open_def move_to_backups_def Let_def split: sum.splits)
next
  case True
  from assms(1,2) obtain e1 evs1 r1 where m: "move_to_backups lib env r = Inr (e1, evs1, r1)"
    by (auto simp: Rotation_open_def split: sum.splits)
  show ?thesis
  proof (cases e1)
    case (Some a)
    then show ?thesis using assms(1,2) m by (auto simp: Rotation_open_def)
  next
    case None
    then have c: "create_file env evs1 r1 = (err, evs, r2)"
      using assms(1,2) m by (auto simp: Rotation_open_def)
    from create_file_keeps [OF c] assms(3) True show ?thesis by auto
  qed
qed

lemma flushDirty_attempted:
  assumes "flushDirty lib env force r = Inr (evs, r')"
  shows "rotation_attempted evs \<longleftrightarrow> MaxSize (cfg r) \<le>s written r"
proof (cases "MaxSize (cfg r) \<le>s written r")
  case False
  from flushDirty_no_rotation [OF False, of lib env force] assms
  show ?thesis using False by (auto simp: rotation_attempted_def)
next
  case True
  from flushDirty_rotation [OF True assms] obtain err evs2 r2
    where o: "Rotation_open lib env (after_hint force r) = Inr (err, evs2, r2)"
      and e1: "err \<noteq> None \<longrightarrow> (\<exists>pre. evs = pre @ evs2)"
      and e2: "err = None \<longrightarrow> (\<exists>pre post. evs = pre @ evs2 @ post)"
    by blast
  have a: "rotation_attempted evs2" by (rule Rotation_open_attempted [OF o])
  have "rotation_attempted evs"
  proof (cases err)
    case None
    then obtain pre post where "evs = pre @ evs2 @ post" using e2 by blast
    then show ?thesis using a by (simp add: rotation_attempted_append)
  next
    case (Some x)
    then obtain pre where "evs = pre @ evs2" using e1 by blast
    then show ?thesis using a by (simp add: rotation_attempted_append)
  qed
  then show ?thesis using True by simp
qed

lemma flushDirty_failed:
  assumes "sink_ok r" and "r_f r \<noteq> None" and "MaxSize (cfg r) \<le>s written r"
    and "\<not> rename_ok env \<or> \<not> mkdir_ok env \<or> open_res env = None"
  shows "\<exists>evs r'. flushDirty lib env force r = Inr (evs, r') \<and> rotation_attempted evs
          \<and> r_f r' = r_f r \<and> buf r' = buf r \<and> cfg r' = cfg r
          \<and> written r' = 0 \<and> dirty r' = 0 \<and> synced r' = 0"
proof -
  from flushDirty_total [OF assms(1), of lib env force]
  obtain evs r' where f: "flushDirty lib env force r = Inr (evs, r')" by blast
  from flushDirty_rotation [OF assms(3) f] obtain err evs2 r2
    where o: "Rotation_open lib env (after_hint force r) = Inr (err, evs2, r2)"
      and z: "written r' = 0" "dirty r' = 0" "synced r' = 0" "cfg r' = cfg r" "r_f r' = r_f r2"
      and b: "err \<noteq> None \<longrightarrow> buf r' = buf r"
    by blast
  have "r_f (after_hint force r) \<noteq> None" using assms(2) after_hint_keeps by metis
  from Rotation_open_fails [OF o this assms(4)] have err: "err \<noteq> None" .
  from Rotation_open_keeps [OF o] err after_hint_keeps [of force r]
  have "r_f r2 = r_f r" by simp
  then show ?thesis
    using f z b err flushDirty_attempted [OF f] assms(3) by auto
qed

lemma Write_attempt:
  assumes "Rotation_Write lib env p r = Inr (res, evs, r')"
  shows "(rotation_attempted evs \<longleftrightarrow>
            buf_fw env \<noteq> 0 \<and> MaxSize (cfg r) \<le>s written r + buf_fw env)
       \<and> (\<not> rotation_attempted evs \<longrightarrow>
            r_f r' = r_f r \<and> buf r' = buf r \<and> cfg r' = cfg r
            \<and> written r' = written r + buf_fw env)"
proof -
  from assms obtain b where b: "buf r = Some b"
    by (auto simp: Rotation_Write_def split: option.splits)
  show ?thesis
  proof (cases "buf_fw env = 0")
    case True
    then show ?thesis using assms
      by (auto simp: Rotation_Write_unfold [OF b] rotation_attempted_def)
  next
    case False
    let ?r1 = "bump (buf_fw env) r"
    from assms False obtain evs1 where f: "flushDirty lib env False ?r1 = Inr (evs1, r')"
      and e: "evs = EvFileWrite (bio_f b) (buf_fw env) # evs1"
      by (auto simp: Rotation_Write_unfold [OF b] bump_def split: sum.splits)
    have a: "rotation_attempted evs \<longleftrightarrow> rotation_attempted evs1"
      by (simp add: e rotation_attempted_def)
    note att = flushDirty_attempted [OF f]
    show ?thesis
    proof (cases "MaxSize (cfg r) \<le>s written r + buf_fw env")
      case True
      then show ?thesis using a att False bump_keeps [of "buf_fw env" r] by simp
    next
      case no: False
      then have "\<not> MaxSize (cfg ?r1) \<le>s written ?r1" using bump_keeps [of "buf_fw env" r] by simp
      from flushDirty_no_rotation [OF this, of lib env False] f
      have "r' = after_hint False ?r1" by simp
      then show ?thesis
        using a att no after_hint_keeps [of False ?r1] bump_keeps [of "buf_fw env" r] by simp
    qed
  qed
qed

lemma Sync_attempt:
  assumes "Rotation_Sync lib env r = Inr (err, evs, r')"
  shows "(rotation_attempted evs \<longleftrightarrow> MaxSize (cfg r) \<le>s written r + buf_fw env)
       \<and> (\<not> rotation_attempted evs \<longrightarrow>
            r_f r' = r_f r \<and> buf r' = buf r \<and> cfg r' = cfg r
            \<and> written r' = written r + buf_fw env)"
proof -
  from assms obtain b where b: "buf r = Some b"
    by (auto simp: Rotation_Sync_def split: option.splits)
  let ?r1 = "bump (buf_fw env) r"
  from assms obtain evs1 where f: "flushDirty lib env True ?r1 = Inr (evs1, r')"
    and e: "evs = EvFileWrite (bio_f b) (buf_fw env) # evs1"
    by (auto simp: Rotation_Sync_unfold [OF b] bump_def split: sum.splits)
  have a: "rotation_attempted evs \<longleftrightarrow> rotation_attempted evs1"
    by (simp add: e rotation_attempted_def)
  note att = flushDirty_attempted [OF f]
  show ?thesis
  proof (cases "MaxSize (cfg r) \<le>s written r + buf_fw env")
    case True
    then show ?thesis using a att bump_keeps [of "buf_fw env" r] by simp
  next
    case no: False
    then have "\<not> MaxSize (cfg ?r1) \<le>s written ?r1" using bump_keeps [of "buf_fw env" r] by simp
    from flushDirty_no_rotation [OF this, of lib env True] f
    have "r' = after_hint True ?r1" by simp
    then show ?thesis
      using a att no after_hint_keeps [of True ?r1] bump_keeps [of "buf_fw env" r] by simp
  qed
qed

lemma Write_failed:
  assumes "sink_ok r" and "r_f r \<noteq> None" and "buf_fw env \<noteq> 0"
    and "MaxSize (cfg r) \<le>s written r + buf_fw env"
    and "\<not> rename_ok env \<or> \<not> mkdir_ok env \<or> open_res env = None"
  shows "\<exists>evs r'. Rotation_Write lib env p r = Inr ((length p, None), evs, r')
          \<and> rotation_attempted evs \<and> r_f r' = r_f r \<and> buf r' = buf r
          \<and> written r' = 0 \<and> dirty r' = 0 \<and> synced r' = 0"
proof -
  from assms(1) obtain b where b: "buf r = Some b" by (auto simp: sink_ok_def)
  let ?r1 = "bump (buf_fw env) r"
  have "r_f ?r1 \<noteq> None" "MaxSize (cfg ?r1) \<le>s written ?r1"
    using assms(2,4) bump_keeps [of "buf_fw env" r] by simp_all
  from flushDirty_failed [OF bump_ok [OF assms(1)] this assms(5), of lib False]
  obtain evs r' where "flushDirty lib env False ?r1 = Inr (evs, r')"
    "rotation_attempted evs" "r_f r' = r_f ?r1" "buf r' = buf ?r1"
    "written r' = 0" "dirty r' = 0" "synced r' = 0" by blast
  then show ?thesis using assms(3) bump_keeps [of "buf_fw env" r]
    by (simp add: Rotation_Write_unfold [OF b] bump_def rotation_attempted_def)
qed

lemma Sync_failed:
  assumes "sink_ok r" and "r_f r \<noteq> None"
    and "MaxSize (cfg r) \<le>s written r + buf_fw env"
    and "\<not> rename_ok env \<or> \<not> mkdir_ok env \<or> open_res env = None"
  shows "\<exists>evs r'. Rotation_Sync lib env r = Inr (None, evs, r')
          \<and> rotation_attempted evs \<and> r_f r' = r_f r \<and> buf r' = buf r
          \<and> written r' = 0 \<and> dirty r' = 0 \<and> synced r' = 0"
proof -
  from assms(1) obtain b where b: "buf r = Some b" by (auto simp: sink_ok_def)
  let ?r1 = "bump (buf_fw env) r"
  have "r_f ?r1 \<noteq> None" "MaxSize (cfg ?r1) \<le>s written ?r1"
    using assms(2,3) bump_keeps [of "buf_fw env" r] by simp_all
  from flushDirty_failed [OF bump_ok [OF assms(1)] this assms(4), of lib True]
  obtain evs r' where "flushDirty lib env True ?r1 = Inr (evs, r')"
    "rotation_attempted evs" "r_f r' = r_f ?r1" "buf r' = buf ?r1"
    "written r' = 0" "dirty r' = 0" "synced r' = 0" by blast
  then show ?thesis using bump_keeps [of "buf_fw env" r]
    by (simp add: Rotation_Sync_unfold [OF b] bump_def rotation_attempted_def)
qed

lemma rot_step_attempt:
  assumes "rot_step lib op r = Inr (evs, r')" and "\<not> MaxSize (cfg r) \<le>s written r + op_fw op"
  shows "\<not> rotation_attempted evs \<and> r_f r' = r_f r \<and> buf r' = buf r \<and> cfg r' = cfg r
       \<and> written r' = written r + op_fw op"
proof (cases op)
  case (OpWrite env p)
  with assms(1) obtain res where "Rotation_Write lib env p r = Inr (res, evs, r')"
    by (auto simp: rot_step_def split: sum.splits)
  from Write_attempt [OF this] assms(2) OpWrite show ?thesis by auto
next
  case (OpSync env)
  with assms(1) obtain err where "Rotation_Sync lib env r = Inr (err, evs, r')"
    by (auto simp: rot_step_def split: sum.splits)
  from Sync_attempt [OF this] assms(2) OpSync show ?thesis by auto
qed

lemma quiet_until_max:
  "below_max (MaxSize (cfg r)) (written r) ops \<Longrightarrow> rot_trace lib ops r = Inr (evs, r') \<Longrightarrow>
     \<not> rotation_attempted evs \<and> r_f r' = r_f r \<and> buf r' = buf r"
proof (induction ops arbitrary: r evs)
  case Nil
  then show ?case by (simp add: rotation_attempted_def)
next
  case (Cons op ops)
  from Cons.prems(2) obtain evs1 r1 evs2
    where s: "rot_step lib op r = Inr (evs1, r1)"
      and t: "rot_trace lib ops r1 = Inr (evs2, r')"
      and e: "evs = evs1 @ evs2"
    by (auto split: sum.splits)
  from Cons.prems(1) have no: "\<not> MaxSize (cfg r) \<le>s written r + op_fw op"
    and rest: "below_max (MaxSize (cfg r)) (written r + op_fw op) ops" by simp_all
  note k = rot_step_attempt [OF s no]
  from rest k have "below_max (MaxSize (cfg r1)) (written r1) ops" by simp
  from Cons.IH [OF this t] k e show ?case by (simp add: rotation_attempted_append)
qed

subsection \<open>Construction\<close>

lemma prepare_scan_error:
  assumes "OutputPath cfg0 \<noteq> []"
    and "within_alloc (MaxBackups (adjust cfg0))" and "scan_alloc_ok senv"
  shows "(\<not> scan_mkdir_ok senv \<longrightarrow>
            (\<exists>r evs. prepare adjust lib senv env cfg0 = Inr (Some r, Some ErrMkdirAll, evs)))
       \<and> (scan_mkdir_ok senv \<and> scan_entries senv = None \<longrightarrow>
            (\<exists>r evs. prepare adjust lib senv env cfg0 = Inr (Some r, Some ErrReadDir, evs)))"
  using assms(1) by (simp add: prepare_def listBackups_within [OF assms(2,3)] Backups_list_def Let_def)

lemma prepare_open_error:
  assumes "OutputPath cfg0 \<noteq> []"
    and "listBackups lib senv (OutputPath (adjust cfg0)) (MaxBackups (adjust cfg0))
           = Inr (None, evs0, bs)"
  shows "(\<not> mkdir_ok env \<longrightarrow>
            (\<exists>r evs. prepare adjust lib senv env cfg0 = Inr (Some r, Some ErrMkdirAll, evs)))
       \<and> (mkdir_ok env \<and> open_res env = None \<longrightarrow>
            (\<exists>r evs. prepare adjust lib senv env cfg0 = Inr (Some r, Some ErrCreate, evs)))
       \<and> (mkdir_ok env \<and> open_res env \<noteq> None \<longrightarrow>
            (\<exists>r evs. prepare adjust lib senv env cfg0 = Inr (Some r, None, evs)
                \<and> r_f r = open_res env))"
  using assms
  by (auto simp: prepare_def Rotation_open_def create_file_def Let_def)

lemma prepare_initial:
  assumes "prepare adjust lib senv env cfg0 = Inr (Some r0, None, evs0)"
  shows "sink_ok r0 \<and> counters_eq r0 \<and> hint_exact r0 (foldl apply_event w evs0)"
proof -
  let ?c = "adjust cfg0"
  let ?r = "\<lparr> cfg = ?c, backups = None, r_f = None, buf = None,
               written = 0, dirty = 0, synced = 0 \<rparr>"
  from assms have ne: "OutputPath cfg0 \<noteq> []" by (auto simp: prepare_def split: if_splits)
  from assms ne obtain evs obs where l0: "listBackups lib senv (OutputPath ?c) (MaxBackups ?c)
      = Inr (None, evs, obs)"
    by (cases "listBackups lib senv (OutputPath ?c) (MaxBackups ?c)")
      (auto simp: prepare_def Let_def split: sum.splits option.splits)
  from listBackups_returned [OF l0] obtain bs where "obs = Some bs" by auto
  with l0 have l: "listBackups lib senv (OutputPath ?c) (MaxBackups ?c)
      = Inr (None, evs, Some bs)" by simp
  from assms ne l obtain evs2 r2
    where o: "create_file env [] (?r \<lparr> backups := Some bs \<rparr>) = (None, evs2, r2)"
      and r0: "r0 = r2 \<lparr> buf := Some (newBufIO (r_f r2) (PerWriteSize (cfg r2))) \<rparr>"
      and e: "evs0 = evs @ evs2"
    by (auto simp: prepare_def Rotation_open_def Let_def split: option.splits prod.splits)
  from o obtain h where h: "open_res env = Some h"
    and r2: "r2 = ?r \<lparr> backups := Some bs, r_f := Some h \<rparr>"
    and evs2: "evs2 = [EvMkdirAll (Dir (OutputPath ?c)) True, EvOpenFile (OutputPath ?c) (Some h)]"
    by (auto simp: create_file_def Let_def split: if_splits option.splits)
  show ?thesis
    by (simp add: r0 r2 e evs2 sink_ok_def counters_eq_def hint_exact_def newBufIO_def)
qed

subsection \<open>The files behind the counters\<close>

lemma move_to_backups_neutral:
  assumes "move_to_backups lib env r = Inr (err, evs, r1)"
  shows "foldl apply_event w evs = w"
  using assms
  by (auto simp: move_to_backups_def Let_def split: if_splits option.splits prod.splits)

lemma Rotation_open_success:
  assumes "Rotation_open lib env r = Inr (err, evs, r2)"
    and "rename_ok env" "mkdir_ok env" "open_res env = Some h"
  shows "err = None \<and> r_f r2 = Some h
       \<and> foldl apply_event w evs = w \<lparr> fsize := (fsize w)(h := 0),
                                        hint_end := (hint_end w)(h := 0) \<rparr>"
proof (cases "r_f r \<noteq> None")
  case False
  then have "create_file env [] r = (err, evs, r2)"
    using assms(1) by (simp add: Rotation_open_def)
  then show ?thesis using assms(3,4)
    by (auto simp: create_file_def Let_def)
next
  case True
  then obtain e1 evs1 r1 where m: "move_to_backups lib env r = Inr (e1, evs1, r1)"
    using assms(1) by (auto simp: Rotation_open_def split: sum.splits)
  from move_to_backups_keeps [OF m] assms(2) have e1: "e1 = None" by auto
  then have "create_file env evs1 r1 = (err, evs, r2)"
    using assms(1) True m by (auto simp: Rotation_open_def)
  then show ?thesis using assms(3,4) move_to_backups_neutral [OF m, of w]
    by (auto simp: create_file_def Let_def)
qed

lemma hint_exact_bump:
  assumes "hint_exact r w" and "buf r = Some b"
  shows "hint_exact (bump fw r) (apply_event w (EvFileWrite (bio_f b) fw))"
  using assms
  by (auto simp: hint_exact_def bump_def split: option.splits)

lemma hint_exact_after_hint:
  assumes "hint_exact r w"
  shows "hint_exact (after_hint force r)
           (foldl apply_event w
              (if PerSyncSize (cfg r) \<le>s dirty r \<or> force
               then [EvFlushHint (r_f r) (synced r) (dirty r)] else []))"
  using assms
  by (auto simp: hint_exact_def after_hint_def split: option.splits)

lemma flushDirty_exact:
  assumes "hint_exact r w" and "env_ok r env" and "flushDirty lib env force r = Inr (evs, r')"
  shows "hint_exact r' (foldl apply_event w evs)"
proof (cases "MaxSize (cfg r) \<le>s written r")
  case False
  from flushDirty_no_rotation [OF False, of lib env force] assms(3)
  have "r' = after_hint force r"
    "evs = (if PerSyncSize (cfg r) \<le>s dirty r \<or> force
            then [EvFlushHint (r_f r) (synced r) (dirty r)] else [])" by simp_all
  then show ?thesis using hint_exact_after_hint [OF assms(1), of force] by simp
next
  case True
  let ?hint = "if PerSyncSize (cfg r) \<le>s dirty r \<or> force
               then [EvFlushHint (r_f r) (synced r) (dirty r)] else []"
  from assms(1) obtain h b where h: "r_f r = Some h" and b: "buf r = Some b"
    by (auto simp: hint_exact_def split: option.splits)
  from assms(2) h obtain h' where h': "open_res env = Some h'" and ne: "h' \<noteq> h"
    and ok: "rename_ok env" "mkdir_ok env"
    by (auto simp: env_ok_def)
  from flushDirty_rotation [OF True assms(3)] obtain err evs2 r2
    where o: "Rotation_open lib env (after_hint force r) = Inr (err, evs2, r2)"
      and z: "written r' = 0" "dirty r' = 0" "synced r' = 0" "r_f r' = r_f r2"
      and s: "err = None \<longrightarrow> (\<exists>b. buf r = Some b \<and> buf r' = Some (bufIO_reset b (r_f r2)))
            \<and> evs = ?hint @ evs2
                    @ [EvFlushHint (r_f r) 0 (MaxSize (cfg r)),
                       EvDropCache (r_f r) 0 (MaxSize (cfg r)), EvClose (r_f r)]"
    by blast
  let ?w1 = "foldl apply_event w ?hint"
  from Rotation_open_success [OF o ok h', of ?w1]
  have err: "err = None" and f2: "r_f r2 = Some h'"
    and w2: "foldl apply_event ?w1 evs2
               = ?w1 \<lparr> fsize := (fsize ?w1)(h' := 0), hint_end := (hint_end ?w1)(h' := 0) \<rparr>"
    by simp_all
  from s err b have b': "buf r' = Some (bufIO_reset b (Some h'))"
    and e: "evs = ?hint @ evs2
                    @ [EvFlushHint (Some h) 0 (MaxSize (cfg r)),
                       EvDropCache (Some h) 0 (MaxSize (cfg r)), EvClose (Some h)]"
    using f2 h by simp_all
  have "foldl apply_event w evs
      = foldl apply_event (foldl apply_event ?w1 evs2)
          [EvFlushHint (Some h) 0 (MaxSize (cfg r)),
           EvDropCache (Some h) 0 (MaxSize (cfg r)), EvClose (Some h)]"
    by (simp only: e foldl_append)
  then have "fsize (foldl apply_event w evs) h' = 0 \<and> hint_end (foldl apply_event w evs) h' = 0"
    using w2 ne by simp
  then show ?thesis using z f2 b' by (simp add: hint_exact_def bufIO_reset_def)
qed

lemma rot_step_exact:
  assumes "hint_exact r w" and "env_ok r (op_env op)" and "rot_step lib op r = Inr (evs, r')"
  shows "hint_exact r' (foldl apply_event w evs)"
proof -
  from assms(1) obtain b where b: "buf r = Some b"
    by (auto simp: hint_exact_def split: option.splits)
  show ?thesis
  proof (cases op)
    case (OpWrite env p)
    show ?thesis
    proof (cases "buf_fw env = 0")
      case True
      then have "r' = r" "evs = [EvFileWrite (bio_f b) 0]"
        using assms(3) OpWrite by (auto simp: rot_step_def Rotation_Write_unfold [OF b])
      then show ?thesis using assms(1) b
        by (auto simp: hint_exact_def split: option.splits)
    next
      case False
      let ?r1 = "bump (buf_fw env) r"
      from assms(3) OpWrite False obtain evs1
        where f: "flushDirty lib env False ?r1 = Inr (evs1, r')"
          and e: "evs = EvFileWrite (bio_f b) (buf_fw env) # evs1"
        by (auto simp: rot_step_def Rotation_Write_unfold [OF b] bump_def split: sum.splits)
      have ok: "env_ok ?r1 env" using assms(2) OpWrite by (simp add: env_ok_def bump_def)
      from flushDirty_exact [OF hint_exact_bump [OF assms(1) b] ok f]
      show ?thesis by (simp add: e)
    qed
  next
    case (OpSync env)
    let ?r1 = "bump (buf_fw env) r"
    from assms(3) OpSync obtain evs1
      where f: "flushDirty lib env True ?r1 = Inr (evs1, r')"
        and e: "evs = EvFileWrite (bio_f b) (buf_fw env) # evs1"
      by (auto simp: rot_step_def Rotation_Sync_unfold [OF b] bump_def split: sum.splits)
    have ok: "env_ok ?r1 env" using assms(2) OpSync by (simp add: env_ok_def bump_def)
    from flushDirty_exact [OF hint_exact_bump [OF assms(1) b] ok f]
    show ?thesis by (simp add: e)
  qed
qed

lemma rot_run_exact:
  "hint_exact r w \<Longrightarrow> healthy lib ops r \<Longrightarrow> rot_run lib ops (r, w) = Inr (r', w') \<Longrightarrow>
     hint_exact r' w'"
proof (induction ops arbitrary: r w)
  case Nil
  then show ?case by simp
next
  case (Cons op ops)
  from Cons.prems(2) obtain evs r1 where s: "rot_step lib op r = Inr (evs, r1)"
    and ok: "env_ok r (op_env op)" and h: "healthy lib ops r1"
    by (auto split: sum.splits)
  from Cons.prems(3) s have run: "rot_run lib ops (r1, foldl apply_event w evs) = Inr (r', w')"
    by simp
  from Cons.IH [OF rot_step_exact [OF Cons.prems(1) ok s] h run] show ?case .
qed

subsection \<open>Sample runs\<close>

lemma sample_backup_name:
  "makeBackupFP sample_time ''app.log'' False 3
     = (''app-2020-01-01T00:00:03.000Z.log'', 1577836803)"
  by (simp add: makeBackupFP_def sample_time_def sample_format_def Dir_def Base_def Ext_def
      Join_def Clean_def clean_step_def split_slash_def backupTimeFmt_def Let_def)

lemma sample_parse:
  "parseTime sample_time ''app-2020-01-01T00:00:03.000Z.log'' ''app-'' ''.log'' = Inr 1577836803"
  by (simp add: parseTime_def sample_time_def sample_format_def Base_def HasPrefix_def
      HasSuffix_def backupTimeFmt_def Let_def upt_rec)



lemma sample_write_fails:
  "Rotation_Write sample_time (sample_env False 10) ''0123456789'' sample_sink
     = Inr ((10, None),
            [EvFileWrite (Some 1) 10,
             EvRename ''app.log'' ''app-2020-01-01T00:00:03.000Z.log'' False],
            sample_sink)"
  by (simp add: Rotation_Write_def bufIO_write_def flushDirty_def Rotation_open_def
      move_to_backups_def sample_backup_name sample_sink_def sample_cfg_def sample_env_def
      Let_def)

lemma sample_open_fails:
  "Rotation_open sample_time (sample_env False 10)
       (sample_sink \<lparr> dirty := 10, written := 10 \<rparr>)
     = Inr (Some (ErrRename ''app.log'' ''app-2020-01-01T00:00:03.000Z.log''),
            [EvRename ''app.log'' ''app-2020-01-01T00:00:03.000Z.log'' False],
            sample_sink \<lparr> dirty := 10, written := 10 \<rparr>)"
  by (simp add: Rotation_open_def move_to_backups_def sample_backup_name sample_sink_def
      sample_cfg_def sample_env_def Let_def)

lemma sample_sync_fails:
  "Rotation_Sync sample_time (sample_env False 10) sample_sink
     = Inr (None,
            [EvFileWrite (Some 1) 10, EvFlushHint (Some 1) 0 10,
             EvRename ''app.log'' ''app-2020-01-01T00:00:03.000Z.log'' False],
            sample_sink)"
  by (simp add: Rotation_Sync_def bufIO_flush_def flushDirty_def Rotation_open_def
      move_to_backups_def sample_backup_name sample_sink_def sample_cfg_def sample_env_def
      Let_def)

lemma sample_sync_empty:
  "Rotation_Sync sample_time (sample_env True 0) sample_sink
     = Inr (None, [EvFileWrite (Some 1) 0, EvFlushHint (Some 1) 0 0], sample_sink)"
  by (simp add: Rotation_Sync_def bufIO_flush_def flushDirty_def sample_sink_def sample_cfg_def
      sample_env_def word_sle_eq Let_def)

lemma sample_write_small:
  "Rotation_Write sample_time (sample_env True 3) ''abc'' sample_sink
     = Inr ((3, None), [EvFileWrite (Some 1) 3], sample_sink \<lparr> dirty := 3, written := 3 \<rparr>)"
  by (simp add: Rotation_Write_def bufIO_write_def flushDirty_def sample_sink_def sample_cfg_def
      sample_env_def Let_def)

lemma sample_flush_fails:
  "flushDirty sample_time (sample_env False 10) False (sample_sink \<lparr> dirty := 10, written := 10 \<rparr>)
     = Inr ([EvRename ''app.log'' ''app-2020-01-01T00:00:03.000Z.log'' False], sample_sink)"
  by (simp add: flushDirty_def Rotation_open_def move_to_backups_def sample_backup_name
      sample_sink_def sample_cfg_def sample_env_def Let_def)

lemma sample_scan_empty:
  "listBackups sample_time \<lparr> scan_alloc_ok = True, scan_mkdir_ok = True, scan_entries = Some [] \<rparr> ''app.log'' 2
     = Inr (None, [EvMkdirAll ''.'' True], Some [])"
proof -
  have "within_alloc 2" by (simp add: within_alloc_def sizeof_Backup_def maxAlloc_def)
  then show ?thesis
    by (simp add: listBackups_within Backups_list_def evict_loop.simps Dir_def Clean_def Let_def)
qed

lemma sample_prepare:
  "prepare (\<lambda>c. c) sample_time \<lparr> scan_alloc_ok = True, scan_mkdir_ok = True, scan_entries = Some [] \<rparr>
       (sample_env True 0) sample_cfg
     = Inr (Some (sample_sink \<lparr> r_f := Some 2, buf := Some \<lparr> bio_f = Some 2 \<rparr> \<rparr>), None,
            [EvMkdirAll ''.'' True, EvMkdirAll ''.'' True, EvOpenFile ''app.log'' (Some 2)])"
proof -
  have "OutputPath sample_cfg = ''app.log''" "MaxBackups sample_cfg = 2"
    by (simp_all add: sample_cfg_def)
  then show ?thesis
    by (simp add: prepare_def sample_scan_empty Rotation_open_def create_file_def newBufIO_def
        sample_sink_def sample_env_def Dir_def Clean_def Let_def)
qed

lemma sample_trace_small:
  "rot_trace sample_time [OpWrite (sample_env True 3) ''abc''] sample_sink
     = Inr ([EvFileWrite (Some 1) 3], sample_sink \<lparr> dirty := 3, written := 3 \<rparr>)"
  by (simp add: rot_step_def sample_write_small)

section \<open>Rotating sink: errors of a rotation\<close>

text \<open>
  C2 as stated fails for \<open>Write\<close> and \<open>Sync\<close>. A write of 10 bytes reaches \<open>MaxSize = 10\<close>;
  \<open>flushDirty\<close> calls \<open>open\<close>, whose rename fails and which returns an error; \<open>flushDirty\<close>
  drops that error, and \<open>Write\<close> returns \<open>(10, nil)\<close>.
\<close>

theorem write_hides_rotation_error_counterexample:
  "Rotation_open sample_time (sample_env False 10)
       (sample_sink \<lparr> dirty := 10, written := 10 \<rparr>)
     = Inr (Some (ErrRename ''app.log'' ''app-2020-01-01T00:00:03.000Z.log''),
            [EvRename ''app.log'' ''app-2020-01-01T00:00:03.000Z.log'' False],
            sample_sink \<lparr> dirty := 10, written := 10 \<rparr>)
   \<and> Rotation_Write sample_time (sample_env False 10) ''0123456789'' sample_sink
     = Inr ((10, None),
            [EvFileWrite (Some 1) 10,
             EvRename ''app.log'' ''app-2020-01-01T00:00:03.000Z.log'' False],
            sample_sink)"
  using sample_open_fails sample_write_fails by simp

text \<open>
  C2, amended. A failure of the rename, of the directory creation or of the file creation
  inside a size-triggered rotation is not propagated: on a constructed sink \<open>Write\<close> always
  returns \<open>(len(p), nil)\<close> and \<open>Sync\<close> always returns nil. During the initial setup the
  errors are returned: \<open>prepare\<close> (and \<open>New\<close>) returns an error for an empty output path;
  when the slice of the catalog is made, that is, for a maximum of backups from 0 up to
  \<open>maxAlloc / 48\<close> and with the memory obtained, it returns an error for a failure of the
  directory creation or of the directory listing in the scan; and when the scan has
  returned, for a failure of the directory creation or of the file creation in \<open>open\<close>. For
  a maximum whose doubling is negative or too large for a slice, \<open>New\<close> panics in \<open>make\<close>
  before any call to the file system.
\<close>

theorem rotation_errors_propagation:
  "(sink_ok r \<longrightarrow>
      (\<exists>evs r'. Rotation_Write lib env p r = Inr ((length p, None), evs, r'))
      \<and> (\<exists>evs r'. Rotation_Sync lib env r = Inr (None, evs, r')))
   \<and> (OutputPath cfg0 = [] \<longrightarrow>
        Rotation_New adjust lib senv env cfg0 = Inr (None, Some ErrEmptyPath, []))
   \<and> (OutputPath cfg0 \<noteq> [] \<and> within_alloc (MaxBackups (adjust cfg0)) \<and> scan_alloc_ok senv
        \<and> \<not> scan_mkdir_ok senv \<longrightarrow>
        (\<exists>r evs. Rotation_New adjust lib senv env cfg0 = Inr (Some r, Some ErrMkdirAll, evs)))
   \<and> (OutputPath cfg0 \<noteq> [] \<and> within_alloc (MaxBackups (adjust cfg0)) \<and> scan_alloc_ok senv
        \<and> scan_mkdir_ok senv \<and> scan_entries senv = None \<longrightarrow>
        (\<exists>r evs. Rotation_New adjust lib senv env cfg0 = Inr (Some r, Some ErrReadDir, evs)))
   \<and> (OutputPath cfg0 \<noteq> []
        \<and> (wrap64 (MaxBackups (adjust cfg0) * 2) < 0
             \<or> sizeof_Backup * wrap64 (MaxBackups (adjust cfg0) * 2) > maxAlloc) \<longrightarrow>
        Rotation_New adjust lib senv env cfg0 = Inl MakeSliceCapOutOfRange)
   \<and> (OutputPath cfg0 \<noteq> []
        \<and> listBackups lib senv (OutputPath (adjust cfg0)) (MaxBackups (adjust cfg0))
            = Inr (None, evs0, bs)
        \<longrightarrow> (\<not> mkdir_ok env \<longrightarrow>
               (\<exists>r evs. Rotation_New adjust lib senv env cfg0
                   = Inr (Some r, Some ErrMkdirAll, evs)))
          \<and> (mkdir_ok env \<and> open_res env = None \<longrightarrow>
               (\<exists>r evs. Rotation_New adjust lib senv env cfg0
                   = Inr (Some r, Some ErrCreate, evs)))
          \<and> (mkdir_ok env \<and> open_res env \<noteq> None \<longrightarrow>
               (\<exists>r evs. Rotation_New adjust lib senv env cfg0 = Inr (Some r, None, evs)
                   \<and> r_f r = open_res env)))"
proof (intro conjI impI)
  assume "sink_ok r"
  then show "\<exists>evs r'. Rotation_Write lib env p r = Inr ((length p, None), evs, r')"
    by (rule Rotation_Write_total)
next
  assume "sink_ok r"
  then show "\<exists>evs r'. Rotation_Sync lib env r = Inr (None, evs, r')"
    by (rule Rotation_Sync_total)
next
  assume "OutputPath cfg0 = []"
  then show "Rotation_New adjust lib senv env cfg0 = Inr (None, Some ErrEmptyPath, [])"
    by (simp add: Rotation_New_def prepare_def)
next
  assume "OutputPath cfg0 \<noteq> [] \<and> within_alloc (MaxBackups (adjust cfg0)) \<and> scan_alloc_ok senv
        \<and> \<not> scan_mkdir_ok senv"
  then show "\<exists>r evs. Rotation_New adjust lib senv env cfg0 = Inr (Some r, Some ErrMkdirAll, evs)"
    using prepare_scan_error [of cfg0 adjust senv lib env] by (simp add: Rotation_New_def)
next
  assume "OutputPath cfg0 \<noteq> [] \<and> within_alloc (MaxBackups (adjust cfg0)) \<and> scan_alloc_ok senv
        \<and> scan_mkdir_ok senv \<and> scan_entries senv = None"
  then show "\<exists>r evs. Rotation_New adjust lib senv env cfg0 = Inr (Some r, Some ErrReadDir, evs)"
    using prepare_scan_error [of cfg0 adjust senv lib env] by (simp add: Rotation_New_def)
next
  assume "OutputPath cfg0 \<noteq> []
        \<and> (wrap64 (MaxBackups (adjust cfg0) * 2) < 0
             \<or> sizeof_Backup * wrap64 (MaxBackups (adjust cfg0) * 2) > maxAlloc)"
  then show "Rotation_New adjust lib senv env cfg0 = Inl MakeSliceCapOutOfRange"
    using listBackups_cap_panics [of "MaxBackups (adjust cfg0)" lib senv "OutputPath (adjust cfg0)"]
    by (simp add: Rotation_New_def prepare_def Let_def)
next
  assume a: "OutputPath cfg0 \<noteq> []
        \<and> listBackups lib senv (OutputPath (adjust cfg0)) (MaxBackups (adjust cfg0))
            = Inr (None, evs0, bs)"
  assume "\<not> mkdir_ok env"
  then show "\<exists>r evs. Rotation_New adjust lib senv env cfg0 = Inr (Some r, Some ErrMkdirAll, evs)"
    using a prepare_open_error [of cfg0 lib senv adjust evs0 bs env]
    by (simp add: Rotation_New_def)
next
  assume a: "OutputPath cfg0 \<noteq> []
        \<and> listBackups lib senv (OutputPath (adjust cfg0)) (MaxBackups (adjust cfg0))
            = Inr (None, evs0, bs)"
  assume "mkdir_ok env \<and> open_res env = None"
  then show "\<exists>r evs. Rotation_New adjust lib senv env cfg0 = Inr (Some r, Some ErrCreate, evs)"
    using a prepare_open_error [of cfg0 lib senv adjust evs0 bs env]
    by (simp add: Rotation_New_def)
next
  assume a: "OutputPath cfg0 \<noteq> []
        \<and> listBackups lib senv (OutputPath (adjust cfg0)) (MaxBackups (adjust cfg0))
            = Inr (None, evs0, bs)"
  assume "mkdir_ok env \<and> open_res env \<noteq> None"
  then show "\<exists>r evs. Rotation_New adjust lib senv env cfg0 = Inr (Some r, None, evs)
                   \<and> r_f r = open_res env"
    using a prepare_open_error [of cfg0 lib senv adjust evs0 bs env]
    by (simp add: Rotation_New_def)
qed

theorem rotation_errors_propagation_witness:
  "(\<exists>evs r'. Rotation_Write sample_time (sample_env False 10) ''0123456789'' sample_sink
        = Inr ((length ''0123456789'', None), evs, r'))
   \<and> (\<exists>evs r'. Rotation_Sync sample_time (sample_env False 10) sample_sink = Inr (None, evs, r'))
   \<and> Rotation_New (\<lambda>c. c) sample_time \<lparr> scan_alloc_ok = True, scan_mkdir_ok = True, scan_entries = Some [] \<rparr>
        (sample_env True 0) (sample_cfg \<lparr> OutputPath := [] \<rparr>)
      = Inr (None, Some ErrEmptyPath, [])
   \<and> (\<exists>r evs. Rotation_New (\<lambda>c. c) sample_time \<lparr> scan_alloc_ok = True, scan_mkdir_ok = False, scan_entries = None \<rparr>
        (sample_env True 0) sample_cfg = Inr (Some r, Some ErrMkdirAll, evs))
   \<and> (\<exists>r evs. Rotation_New (\<lambda>c. c) sample_time \<lparr> scan_alloc_ok = True, scan_mkdir_ok = True, scan_entries = None \<rparr>
        (sample_env True 0) sample_cfg = Inr (Some r, Some ErrReadDir, evs))
   \<and> (\<exists>r evs. Rotation_New (\<lambda>c. c) sample_time \<lparr> scan_alloc_ok = True, scan_mkdir_ok = True, scan_entries = Some [] \<rparr>
        \<lparr> now = 3, rename_ok = True, mkdir_ok = False, open_res = Some 2, buf_fw = 0 \<rparr>
        sample_cfg = Inr (Some r, Some ErrMkdirAll, evs))
   \<and> (\<exists>r evs. Rotation_New (\<lambda>c. c) sample_time \<lparr> scan_alloc_ok = True, scan_mkdir_ok = True, scan_entries = Some [] \<rparr>
        \<lparr> now = 3, rename_ok = True, mkdir_ok = True, open_res = None, buf_fw = 0 \<rparr>
        sample_cfg = Inr (Some r, Some ErrCreate, evs))
   \<and> (\<exists>r evs. Rotation_New (\<lambda>c. c) sample_time \<lparr> scan_alloc_ok = True, scan_mkdir_ok = True, scan_entries = Some [] \<rparr>
        (sample_env True 0) sample_cfg = Inr (Some r, None, evs) \<and> r_f r = Some 2)
   \<and> Rotation_New (\<lambda>c. c) sample_time \<lparr> scan_alloc_ok = True, scan_mkdir_ok = True, scan_entries = Some [] \<rparr>
        (sample_env True 0) (sample_cfg \<lparr> MaxBackups := - 1 \<rparr>) = Inl MakeSliceCapOutOfRange"
proof -
  let ?id = "\<lambda>c :: Config. c"
  let ?s0 = "\<lparr> scan_alloc_ok = True, scan_mkdir_ok = True, scan_entries = Some [] \<rparr>"
  let ?e1 = "\<lparr> now = 3 :: nat, rename_ok = True, mkdir_ok = False, open_res = Some 2,
               buf_fw = 0 \<rparr>"
  let ?e2 = "\<lparr> now = 3 :: nat, rename_ok = True, mkdir_ok = True, open_res = None,
               buf_fw = 0 \<rparr>"
  have ok: "sink_ok sample_sink" by (simp add: sink_ok_def sample_sink_def)
  have p: "OutputPath sample_cfg \<noteq> []" "OutputPath (sample_cfg \<lparr> OutputPath := [] \<rparr>) = []"
    by (simp_all add: sample_cfg_def)
  have l: "listBackups sample_time ?s0 (OutputPath (?id sample_cfg)) (MaxBackups (?id sample_cfg))
      = Inr (None, [EvMkdirAll ''.'' True], Some [])"
    using sample_scan_empty by (simp add: sample_cfg_def)
  have e: "mkdir_ok (sample_env True 0) \<and> open_res (sample_env True 0) = Some 2"
    by (simp add: sample_env_def)
  have w: "within_alloc (MaxBackups (?id sample_cfg))"
    by (simp add: within_alloc_def sizeof_Backup_def maxAlloc_def sample_cfg_def)
  have neg: "OutputPath (sample_cfg \<lparr> MaxBackups := - 1 \<rparr>) \<noteq> []
      \<and> (wrap64 (MaxBackups (?id (sample_cfg \<lparr> MaxBackups := - 1 \<rparr>)) * 2) < 0
           \<or> sizeof_Backup * wrap64 (MaxBackups (?id (sample_cfg \<lparr> MaxBackups := - 1 \<rparr>)) * 2)
               > maxAlloc)"
    by (simp add: sample_cfg_def wrap64_def)
  note t = rotation_errors_propagation [where lib = sample_time and adjust = ?id]
  from t [where r = sample_sink and env = "sample_env False 10" and p = "''0123456789''"] ok
  have 1: "(\<exists>evs r'. Rotation_Write sample_time (sample_env False 10) ''0123456789'' sample_sink
        = Inr ((length ''0123456789'', None), evs, r'))
      \<and> (\<exists>evs r'. Rotation_Sync sample_time (sample_env False 10) sample_sink
        = Inr (None, evs, r'))" by blast
  from t [where ?cfg0.0 = "sample_cfg \<lparr> OutputPath := [] \<rparr>" and senv = ?s0
      and env = "sample_env True 0" and r = sample_sink and p = "''abc''"
      and ?evs0.0 = "[]" and bs = None] p(2)
  have 2: "Rotation_New ?id sample_time ?s0 (sample_env True 0) (sample_cfg \<lparr> OutputPath := [] \<rparr>)
      = Inr (None, Some ErrEmptyPath, [])" by blast
  from t [where ?cfg0.0 = sample_cfg
      and senv = "\<lparr> scan_alloc_ok = True, scan_mkdir_ok = False, scan_entries = None \<rparr>"
      and env = "sample_env True 0" and r = sample_sink and p = "''abc''"
      and ?evs0.0 = "[]" and bs = None] p(1) w
  have 3: "\<exists>r evs. Rotation_New ?id sample_time \<lparr> scan_alloc_ok = True, scan_mkdir_ok = False, scan_entries = None \<rparr>
        (sample_env True 0) sample_cfg = Inr (Some r, Some ErrMkdirAll, evs)" by simp
  from t [where ?cfg0.0 = sample_cfg
      and senv = "\<lparr> scan_alloc_ok = True, scan_mkdir_ok = True, scan_entries = None \<rparr>"
      and env = "sample_env True 0" and r = sample_sink and p = "''abc''"
      and ?evs0.0 = "[]" and bs = None] p(1) w
  have 4: "\<exists>r evs. Rotation_New ?id sample_time \<lparr> scan_alloc_ok = True, scan_mkdir_ok = True, scan_entries = None \<rparr>
        (sample_env True 0) sample_cfg = Inr (Some r, Some ErrReadDir, evs)" by simp
  from t [where env = ?e1 and ?cfg0.0 = sample_cfg and senv = ?s0
      and ?evs0.0 = "[EvMkdirAll ''.'' True]" and bs = "Some []"
      and r = sample_sink and p = "''abc''"] p(1) l
  have 5: "\<exists>r evs. Rotation_New ?id sample_time ?s0 ?e1 sample_cfg
        = Inr (Some r, Some ErrMkdirAll, evs)" by simp
  from t [where env = ?e2 and ?cfg0.0 = sample_cfg and senv = ?s0
      and ?evs0.0 = "[EvMkdirAll ''.'' True]" and bs = "Some []"
      and r = sample_sink and p = "''abc''"] p(1) l
  have 6: "\<exists>r evs. Rotation_New ?id sample_time ?s0 ?e2 sample_cfg
        = Inr (Some r, Some ErrCreate, evs)" by simp
  from t [where env = "sample_env True 0" and ?cfg0.0 = sample_cfg and senv = ?s0
      and ?evs0.0 = "[EvMkdirAll ''.'' True]" and bs = "Some []"
      and r = sample_sink and p = "''abc''"] p(1) l e
  have 7: "\<exists>r evs. Rotation_New ?id sample_time ?s0 (sample_env True 0) sample_cfg
        = Inr (Some r, None, evs) \<and> r_f r = Some 2" by simp
  from t [where ?cfg0.0 = "sample_cfg \<lparr> MaxBackups := - 1 \<rparr>" and senv = ?s0
      and env = "sample_env True 0" and r = sample_sink and p = "''abc''"
      and ?evs0.0 = "[]" and bs = None] neg
  have 8: "Rotation_New ?id sample_time ?s0 (sample_env True 0) (sample_cfg \<lparr> MaxBackups := - 1 \<rparr>)
      = Inl MakeSliceCapOutOfRange" by blast
  from 1 2 3 4 5 6 7 8 show ?thesis by blast
qed

section \<open>Rotating sink: a failed rotation\<close>

text \<open>
  C6. When the rotation that \<open>Write\<close> or \<open>Sync\<close> attempts at \<open>written >= MaxSize\<close> fails (the
  rename, the directory creation or the file creation inside \<open>open\<close> fails), the call still
  returns, the open file and the buffer with its target are the ones from before the call,
  and the three counters are 0. A later call attempts a rotation exactly when it brings
  \<open>written\<close> to \<open>MaxSize\<close> again (a \<open>Write\<close> that lands no byte in the file never does); over
  any sequence of calls that keeps \<open>written\<close> below \<open>MaxSize\<close> no rotation is attempted and the
  file and the buffer stay.
\<close>

theorem failed_rotation_keeps_file:
  "(sink_ok r \<and> r_f r \<noteq> None \<and> MaxSize (cfg r) \<le>s written r + buf_fw env
      \<and> (\<not> rename_ok env \<or> \<not> mkdir_ok env \<or> open_res env = None)
     \<longrightarrow> (buf_fw env \<noteq> 0 \<longrightarrow>
            (\<exists>evs r'. Rotation_Write lib env p r = Inr ((length p, None), evs, r')
                \<and> rotation_attempted evs \<and> r_f r' = r_f r \<and> buf r' = buf r
                \<and> written r' = 0 \<and> dirty r' = 0 \<and> synced r' = 0))
        \<and> (\<exists>evs r'. Rotation_Sync lib env r = Inr (None, evs, r')
                \<and> rotation_attempted evs \<and> r_f r' = r_f r \<and> buf r' = buf r
                \<and> written r' = 0 \<and> dirty r' = 0 \<and> synced r' = 0))
   \<and> (Rotation_Write lib env p r = Inr (res, evs1, r1) \<longrightarrow>
        (rotation_attempted evs1 \<longleftrightarrow>
           buf_fw env \<noteq> 0 \<and> MaxSize (cfg r) \<le>s written r + buf_fw env))
   \<and> (Rotation_Sync lib env r = Inr (err, evs2, r2) \<longrightarrow>
        (rotation_attempted evs2 \<longleftrightarrow> MaxSize (cfg r) \<le>s written r + buf_fw env))
   \<and> (below_max (MaxSize (cfg r)) (written r) ops \<and> rot_trace lib ops r = Inr (evs3, r3) \<longrightarrow>
        \<not> rotation_attempted evs3 \<and> r_f r3 = r_f r \<and> buf r3 = buf r)"
  using Write_failed [of r env lib p] Sync_failed [of r env lib]
    Write_attempt [of lib env p r res evs1 r1] Sync_attempt [of lib env r err evs2 r2]
    quiet_until_max [of r ops lib evs3 r3]
  by blast

theorem failed_rotation_keeps_file_witness:
  "(\<exists>evs r'. Rotation_Write sample_time (sample_env False 10) ''0123456789'' sample_sink
        = Inr ((10, None), evs, r')
      \<and> rotation_attempted evs \<and> r_f r' = Some 1 \<and> buf r' = Some \<lparr> bio_f = Some 1 \<rparr>
      \<and> written r' = 0 \<and> dirty r' = 0 \<and> synced r' = 0)
   \<and> (\<exists>evs r'. Rotation_Sync sample_time (sample_env False 10) sample_sink = Inr (None, evs, r')
      \<and> rotation_attempted evs \<and> r_f r' = Some 1 \<and> buf r' = Some \<lparr> bio_f = Some 1 \<rparr>
      \<and> written r' = 0 \<and> dirty r' = 0 \<and> synced r' = 0)
   \<and> rotation_attempted [EvFileWrite (Some 1) 10,
        EvRename ''app.log'' ''app-2020-01-01T00:00:03.000Z.log'' False]
   \<and> rotation_attempted [EvFileWrite (Some 1) 10, EvFlushHint (Some 1) 0 10,
        EvRename ''app.log'' ''app-2020-01-01T00:00:03.000Z.log'' False]
   \<and> \<not> rotation_attempted [EvFileWrite (Some 1) 3]"
proof -
  let ?env = "sample_env False 10"
  let ?ops = "[OpWrite (sample_env True 3) ''abc''] :: (nat, char) rot_op list"
  have h: "sink_ok sample_sink \<and> r_f sample_sink \<noteq> None
      \<and> MaxSize (cfg sample_sink) \<le>s written sample_sink + buf_fw ?env
      \<and> (\<not> rename_ok ?env \<or> \<not> mkdir_ok ?env \<or> open_res ?env = None)"
    "buf_fw ?env \<noteq> 0"
    by (simp_all add: sink_ok_def sample_sink_def sample_cfg_def sample_env_def)
  have b: "below_max (MaxSize (cfg sample_sink)) (written sample_sink) ?ops"
    by (simp add: sample_sink_def sample_cfg_def sample_env_def)
  have f: "r_f sample_sink = Some 1" "buf sample_sink = Some \<lparr> bio_f = Some 1 \<rparr>"
    by (simp_all add: sample_sink_def)
  from failed_rotation_keeps_file [of sample_sink ?env sample_time "''0123456789''"
      "(10, None)" _ sample_sink None _ sample_sink ?ops "[EvFileWrite (Some 1) 3]"
      "sample_sink \<lparr> dirty := 3, written := 3 \<rparr>"]
    h b sample_write_fails sample_sync_fails sample_trace_small
  show ?thesis by (simp add: f)
qed

section \<open>Rotating sink: the counters\<close>

text \<open>
  C10 as stated fails in its last part. A write of 10 bytes reaches \<open>MaxSize\<close>; the rename of
  the rotation fails; the counters are reset although the file stays. On exit
  \<open>written = synced + dirty\<close> holds (all are 0), but the file holds 10 bytes that were never
  hinted, and the hint that a following \<open>Sync\<close> forces is issued at offset 0 with length 0.
\<close>

theorem hint_after_failed_rotation_counterexample:
  "rot_step sample_time (OpWrite (sample_env False 10) ''0123456789'') sample_sink
     = Inr ([EvFileWrite (Some 1) 10,
             EvRename ''app.log'' ''app-2020-01-01T00:00:03.000Z.log'' False], sample_sink)
   \<and> counters_eq sample_sink
   \<and> fsize (foldl apply_event sample_world
        [EvFileWrite (Some 1) 10,
         EvRename ''app.log'' ''app-2020-01-01T00:00:03.000Z.log'' False]) 1 = 10
   \<and> hint_end (foldl apply_event sample_world
        [EvFileWrite (Some 1) 10,
         EvRename ''app.log'' ''app-2020-01-01T00:00:03.000Z.log'' False]) 1 = 0
   \<and> \<not> hint_exact sample_sink (foldl apply_event sample_world
        [EvFileWrite (Some 1) 10,
         EvRename ''app.log'' ''app-2020-01-01T00:00:03.000Z.log'' False])
   \<and> rot_step sample_time (OpSync (sample_env True 0) :: (nat, char) rot_op) sample_sink
     = Inr ([EvFileWrite (Some 1) 0, EvFlushHint (Some 1) 0 0], sample_sink)"
proof -
  let ?evs = "[EvFileWrite (Some 1) 10,
               EvRename ''app.log'' ''app-2020-01-01T00:00:03.000Z.log'' False]"
  have a: "rot_step sample_time (OpWrite (sample_env False 10) ''0123456789'') sample_sink
      = Inr (?evs, sample_sink)"
    by (simp add: rot_step_def sample_write_fails)
  have b: "rot_step sample_time (OpSync (sample_env True 0) :: (nat, char) rot_op) sample_sink
      = Inr ([EvFileWrite (Some 1) 0, EvFlushHint (Some 1) 0 0], sample_sink)"
    by (simp add: rot_step_def sample_sync_empty)
  have c: "counters_eq sample_sink"
    by (simp add: counters_eq_def sample_sink_def)
  have d: "fsize (foldl apply_event sample_world ?evs) 1 = 10"
    "hint_end (foldl apply_event sample_world ?evs) 1 = 0"
    by (simp_all add: sample_world_def)
  have e: "\<not> hint_exact sample_sink (foldl apply_event sample_world ?evs)"
    by (simp add: hint_exact_def sample_sink_def sample_world_def)
  from a b c d e show ?thesis by blast
qed

text \<open>
  C10, amended. From every constructed sink, every sequence of \<open>Write\<close> and \<open>Sync\<close> calls
  returns, and on exit from each call \<open>written = synced + dirty\<close>; after a rotation attempt
  all three counters are 0. The sink that \<open>prepare\<close> returns satisfies the equation, and for
  it a flush hint at offset \<open>synced\<close> with length \<open>dirty\<close> covers exactly the bytes of the
  current file that were written and not yet hinted; this stays so over every sequence of
  calls in which no rotation fails.
\<close>

theorem counters_invariant:
  "(sink_ok r \<and> counters_eq r \<longrightarrow>
      (\<exists>r' w'. rot_run lib ops (r, w) = Inr (r', w') \<and> counters_eq r'))
   \<and> (MaxSize (cfg r) \<le>s written r \<and> flushDirty lib env force r = Inr (evs, r1) \<longrightarrow>
        written r1 = 0 \<and> dirty r1 = 0 \<and> synced r1 = 0)
   \<and> (prepare adjust lib senv env cfg0 = Inr (Some r0, None, evs0) \<longrightarrow>
        sink_ok r0 \<and> counters_eq r0 \<and> hint_exact r0 (foldl apply_event w evs0))
   \<and> (sink_ok r \<and> counters_eq r \<and> hint_exact r w \<and> healthy lib ops r \<longrightarrow>
        (\<exists>r' w'. rot_run lib ops (r, w) = Inr (r', w') \<and> counters_eq r' \<and> hint_exact r' w'))"
proof (intro conjI impI)
  assume "sink_ok r \<and> counters_eq r"
  then show "\<exists>r' w'. rot_run lib ops (r, w) = Inr (r', w') \<and> counters_eq r'"
    using rot_run_total [of r lib ops w] by blast
next
  assume "MaxSize (cfg r) \<le>s written r \<and> flushDirty lib env force r = Inr (evs, r1)"
  then show "written r1 = 0" "dirty r1 = 0" "synced r1 = 0"
    using flushDirty_rotation [of r lib env force evs r1] by auto
next
  assume "prepare adjust lib senv env cfg0 = Inr (Some r0, None, evs0)"
  then show "sink_ok r0" "counters_eq r0" "hint_exact r0 (foldl apply_event w evs0)"
    using prepare_initial [of adjust lib senv env cfg0 r0 evs0 w] by auto
next
  assume a: "sink_ok r \<and> counters_eq r \<and> hint_exact r w \<and> healthy lib ops r"
  then obtain r' w' where run: "rot_run lib ops (r, w) = Inr (r', w')" and c: "counters_eq r'"
    using rot_run_total [of r lib ops w] by blast
  from rot_run_exact [OF _ _ run] a have "hint_exact r' w'" by blast
  then show "\<exists>r' w'. rot_run lib ops (r, w) = Inr (r', w') \<and> counters_eq r' \<and> hint_exact r' w'"
    using run c by blast
qed

theorem counters_invariant_witness:
  "(\<exists>r' w'. rot_run sample_time [OpWrite (sample_env True 3) ''abc''] (sample_sink, sample_world)
        = Inr (r', w') \<and> counters_eq r' \<and> hint_exact r' w')
   \<and> written sample_sink = 0 \<and> dirty sample_sink = 0 \<and> synced sample_sink = 0
   \<and> hint_exact (sample_sink \<lparr> r_f := Some 2, buf := Some \<lparr> bio_f = Some 2 \<rparr> \<rparr>)
        (foldl apply_event sample_world
           [EvMkdirAll ''.'' True, EvMkdirAll ''.'' True, EvOpenFile ''app.log'' (Some 2)])"
proof -
  let ?r = "sample_sink \<lparr> dirty := 10, written := 10 \<rparr>"
  let ?ops = "[OpWrite (sample_env True 3) ''abc'']"
  have ok: "sink_ok sample_sink \<and> counters_eq sample_sink \<and> hint_exact sample_sink sample_world
      \<and> healthy sample_time ?ops sample_sink"
    by (simp add: sink_ok_def counters_eq_def hint_exact_def env_ok_def rot_step_def
        sample_write_small sample_world_def)
      (simp add: sample_sink_def sample_env_def)
  have fl: "MaxSize (cfg ?r) \<le>s written ?r
      \<and> flushDirty sample_time (sample_env False 10) False ?r
          = Inr ([EvRename ''app.log'' ''app-2020-01-01T00:00:03.000Z.log'' False], sample_sink)"
    using sample_flush_fails by (simp add: sample_sink_def sample_cfg_def)
  from counters_invariant [of sample_sink sample_time ?ops sample_world] ok
  have 1: "\<exists>r' w'. rot_run sample_time ?ops (sample_sink, sample_world) = Inr (r', w')
      \<and> counters_eq r' \<and> hint_exact r' w'" by blast
  from counters_invariant [of ?r sample_time "[]" sample_world "sample_env False 10" False
      "[EvRename ''app.log'' ''app-2020-01-01T00:00:03.000Z.log'' False]" sample_sink] fl
  have 2: "written sample_sink = 0 \<and> dirty sample_sink = 0 \<and> synced sample_sink = 0" by blast
  from counters_invariant [of sample_sink sample_time "[]" sample_world "sample_env True 0" False
      "[]" sample_sink "\<lambda>c. c" "\<lparr> scan_alloc_ok = True, scan_mkdir_ok = True, scan_entries = Some [] \<rparr>" sample_cfg
      "sample_sink \<lparr> r_f := Some 2, buf := Some \<lparr> bio_f = Some 2 \<rparr> \<rparr>"
      "[EvMkdirAll ''.'' True, EvMkdirAll ''.'' True, EvOpenFile ''app.log'' (Some 2)]"]
    sample_prepare
  have 3: "hint_exact (sample_sink \<lparr> r_f := Some 2, buf := Some \<lparr> bio_f = Some 2 \<rparr> \<rparr>)
        (foldl apply_event sample_world
           [EvMkdirAll ''.'' True, EvMkdirAll ''.'' True, EvOpenFile ''app.log'' (Some 2)])"
    by blast
  from 1 2 3 show ?thesis by blast
qed
section \<open>The heap of backups\<close>














subsection \<open>Eviction\<close>


lemma evict_loop_empty_panics:
  "maxb < 0 \<Longrightarrow> evict_loop maxb [] = Inl NilTypeAssertion"
  by (subst evict_loop.simps) (simp add: heap_Pop_def)

subsection \<open>The scan\<close>










subsection \<open>Rotations\<close>











subsection \<open>When the scan returns\<close>




lemma remaining_bound:
  assumes "mset rs = mset bs + mset vs"
  shows "length (filter (\<lambda>b. fp b \<notin> set (map fp vs)) rs) \<le> length bs"
proof -
  let ?P = "\<lambda>b. fp b \<notin> set (map fp vs)"
  have "filter_mset ?P (mset vs) = {#}"
    by auto
  then have "filter_mset ?P (mset rs) = filter_mset ?P (mset bs)"
    using assms by simp
  moreover have "length (filter ?P rs) = size (filter_mset ?P (mset rs))"
    by (metis mset_filter size_mset)
  moreover have "size (filter_mset ?P (mset bs)) \<le> size (mset bs)"
    by (rule size_filter_mset_lesseq)
  moreover have "size (mset bs) = length bs" by (rule size_mset)
  ultimately show ?thesis by (simp only:)
qed

subsection \<open>The files on the disk\<close>




















subsection \<open>A sample directory\<close>












lemma sample_dir1: "Dir ''app-2020-01-01T00:00:01.000Z.log'' = ''.''"
  by (simp add: Dir_def Clean_def)

lemma sample_dir2: "Dir ''app-2020-01-01T00:00:02.000Z.log'' = ''.''"
  by (simp add: Dir_def Clean_def)


section \<open>Backups kept and backups removed\<close>



section \<open>Names of backups\<close>

lemma sample_root_name:
  "makeBackupFP sample_time ''/'' False 3 = (''/-2020-01-01T00:00:03.000Z'', 1577836803)"
  by (simp add: makeBackupFP_def sample_time_def sample_format_def Dir_def Base_def Ext_def
      Join_def Clean_def clean_step_def split_slash_def backupTimeFmt_def Let_def)

lemma sample_root_prefix: "getPrefixAndExt ''/'' = (''/-'', [])"
  by (simp add: getPrefixAndExt_def Base_def Ext_def Let_def)

lemma sample_root_parse:
  "parseTime sample_time ''/-2020-01-01T00:00:03.000Z'' ''/-'' [] = Inr 0"
  by (simp add: parseTime_def Base_def HasPrefix_def Let_def)

text \<open>
  C8, as stated, fails for the output path \<open>/\<close>: its base name is \<open>/\<close>, so the prefix is
  \<open>/-\<close>; the name made for the backup is \<open>/-2020-01-01T00:00:03.000Z\<close>, which \<open>Join\<close> cleans
  and whose base name \<open>-2020-01-01T00:00:03.000Z\<close> does not start with the prefix. \<open>parseTime\<close>
  gives 0, not the Unix time 1577836803 that \<open>makeBackupFP\<close> returns.
\<close>

theorem root_path_round_trip_counterexample:
  "fst (makeBackupFP sample_time ''/'' False 3) = ''/-2020-01-01T00:00:03.000Z''
   \<and> snd (makeBackupFP sample_time ''/'' False 3) = 1577836803
   \<and> Unix sample_time (UTC sample_time 3) = 1577836803
   \<and> parseTime sample_time (fst (makeBackupFP sample_time ''/'' False 3))
        (fst (getPrefixAndExt ''/'')) (snd (getPrefixAndExt ''/'')) = Inr 0
   \<and> parseTime sample_time (fst (makeBackupFP sample_time ''/'' False 3))
        (fst (getPrefixAndExt ''/'')) (snd (getPrefixAndExt ''/''))
       \<noteq> Inr (Unix sample_time (UTC sample_time 3))"
proof -
  have u: "Unix sample_time (UTC sample_time 3) = 1577836803"
    by (simp add: sample_time_def)
  show ?thesis
    unfolding sample_root_name sample_root_prefix fst_conv snd_conv sample_root_parse u
    by simp
qed

text \<open>
  C8, amended. For an output path whose base name is not \<open>/\<close>, and a time whose formatted
  timestamp holds no separator and parses back to a time of the same Unix second: the path
  that \<open>makeBackupFP\<close> returns is the directory of the output path joined with the name
  made of the prefix, the timestamp and the extension, where the prefix (with its dash) and
  the extension are those of \<open>getPrefixAndExt\<close>; the directory of that path is the
  directory of the output path and its base name is that name; and \<open>parseTime\<close> on the
  path, with that prefix and extension, gives the Unix time that \<open>makeBackupFP\<close> returns,
  which is the Unix time of the instant (in UTC unless local time is configured).
\<close>

theorem backup_name_round_trip:
  assumes "Base outputPath \<noteq> ''/''"
    and "CHR ''/'' \<notin> set (Format lib (if local then t else UTC lib t) backupTimeFmt)"
    and "Parse lib backupTimeFmt (Format lib (if local then t else UTC lib t) backupTimeFmt)
           = Some t'"
    and "Unix lib t' = Unix lib (if local then t else UTC lib t)"
  shows "fst (makeBackupFP lib outputPath local t)
           = Join (Dir outputPath)
               (fst (getPrefixAndExt outputPath)
                  @ Format lib (if local then t else UTC lib t) backupTimeFmt
                  @ snd (getPrefixAndExt outputPath))
       \<and> Dir (fst (makeBackupFP lib outputPath local t)) = Dir outputPath
       \<and> Base (fst (makeBackupFP lib outputPath local t))
           = fst (getPrefixAndExt outputPath)
               @ Format lib (if local then t else UTC lib t) backupTimeFmt
               @ snd (getPrefixAndExt outputPath)
       \<and> snd (getPrefixAndExt outputPath) = Ext (Base outputPath)
       \<and> fst (getPrefixAndExt outputPath)
           = take (length (Base outputPath) - length (Ext (Base outputPath))) (Base outputPath)
               @ ''-''
       \<and> snd (makeBackupFP lib outputPath local t) = Unix lib (if local then t else UTC lib t)
       \<and> parseTime lib (fst (makeBackupFP lib outputPath local t))
             (fst (getPrefixAndExt outputPath)) (snd (getPrefixAndExt outputPath))
           = Inr (snd (makeBackupFP lib outputPath local t))"
proof -
  define name where "name = Base outputPath"
  define ext where "ext = Ext name"
  define stem where "stem = take (length name - length ext) name"
  define u where "u = (if local then t else UTC lib t)"
  define stamp where "stamp = Format lib u backupTimeFmt"
  define x where "x = stem @ ''-'' @ stamp @ ext"
  have ge: "getPrefixAndExt outputPath = (stem @ ''-'', ext)"
    by (simp add: getPrefixAndExt_def Let_def name_def ext_def stem_def)
  have mk: "makeBackupFP lib outputPath local t = (Join (Dir outputPath) x, Unix lib u)"
    by (auto simp: makeBackupFP_def Let_def name_def ext_def stem_def u_def stamp_def x_def)
  have ns: "CHR ''/'' \<notin> set name" using Base_no_slash [OF assms(1)] by (simp add: name_def)
  then have "CHR ''/'' \<notin> set stem" unfolding stem_def by (meson in_set_takeD)
  moreover have "CHR ''/'' \<notin> set ext" unfolding ext_def by (rule Ext_no_slash)
  moreover have "CHR ''/'' \<notin> set stamp" using assms(2) by (simp add: stamp_def u_def)
  ultimately have x1: "CHR ''/'' \<notin> set x" by (simp add: x_def)
  have dash: "CHR ''-'' \<in> set x" by (simp add: x_def)
  have x2: "x \<noteq> []" "x \<noteq> ''.''" "x \<noteq> ''..''" using dash by auto
  have b: "Base (Join (Dir outputPath) x) = x"
    by (rule Base_Join [OF x2(1) x1 x2(2,3) Dir_nonempty])
  have dd: "Dir (Join (Dir outputPath) x) = Dir outputPath"
    by (rule Dir_Join_Dir [OF x2(1) x1 x2(2,3)])
  have "parseTime lib (Join (Dir outputPath) x) (stem @ ''-'') ext
      = Inr (case Parse lib backupTimeFmt stamp of None \<Rightarrow> 0 | Some t \<Rightarrow> Unix lib t)"
    by (rule parseTime_made) (use b in \<open>simp add: x_def\<close>)
  then have p: "parseTime lib (Join (Dir outputPath) x) (stem @ ''-'') ext = Inr (Unix lib u)"
    using assms(3,4) by (simp add: stamp_def u_def)
  show ?thesis
    unfolding ge fst_conv snd_conv
    using b p mk dd
    unfolding x_def stamp_def u_def stem_def ext_def name_def
    by simp
qed

theorem backup_name_round_trip_witness:
  "Base ''app.log'' \<noteq> ''/''
   \<and> Parse sample_time backupTimeFmt (Format sample_time (UTC sample_time 3) backupTimeFmt)
       = Some 3
   \<and> Dir (fst (makeBackupFP sample_time ''app.log'' False 3)) = Dir ''app.log''
   \<and> Base (fst (makeBackupFP sample_time ''app.log'' False 3))
       = fst (getPrefixAndExt ''app.log'')
           @ Format sample_time (if False then 3 else UTC sample_time 3) backupTimeFmt
           @ snd (getPrefixAndExt ''app.log'')
   \<and> parseTime sample_time (fst (makeBackupFP sample_time ''app.log'' False 3))
        (fst (getPrefixAndExt ''app.log'')) (snd (getPrefixAndExt ''app.log''))
       = Inr (snd (makeBackupFP sample_time ''app.log'' False 3))
   \<and> snd (makeBackupFP sample_time ''app.log'' False 3) = 1577836803"
proof -
  have f: "Format sample_time (if False then 3 else UTC sample_time 3) backupTimeFmt
      = ''2020-01-01T00:00:03.000Z''"
    by (simp add: sample_time_def sample_format_def)
  have 1: "Base ''app.log'' \<noteq> ''/''" by (simp add: Base_def)
  have 2: "CHR ''/'' \<notin> set (Format sample_time (if False then 3 else UTC sample_time 3)
      backupTimeFmt)"
    unfolding f by simp
  have 3: "Parse sample_time backupTimeFmt
      (Format sample_time (if False then 3 else UTC sample_time 3) backupTimeFmt) = Some 3"
    unfolding f by (simp add: sample_time_def sample_format_def upt_rec)
  have 4: "Unix sample_time 3 = Unix sample_time (if False then 3 else UTC sample_time 3)"
    by (simp add: sample_time_def)
  have 5: "Parse sample_time backupTimeFmt (Format sample_time (UTC sample_time 3) backupTimeFmt)
      = Some 3"
    using 3 by simp
  have 6: "snd (makeBackupFP sample_time ''app.log'' False 3) = 1577836803"
    by (simp add: sample_backup_name)
  from backup_name_round_trip [OF 1 2 3 4] 1 5 6 show ?thesis by blast
qed

section \<open>Logger: the terminal action\<close>

lemma foldl_AddCore:
  "foldl (\<lambda>ce1 c. AddCore ce1 ent c) ce cs =
     (if cs = [] then ce
      else Some ((case ce of None \<Rightarrow> getCheckedEntry \<lparr> ce_Entry := ent \<rparr> | Some c \<Rightarrow> c)
                  \<lparr> cores := cores (case ce of None \<Rightarrow> getCheckedEntry \<lparr> ce_Entry := ent \<rparr>
                                       | Some c \<Rightarrow> c) @ cs \<rparr>))"
proof (induction cs arbitrary: ce)
  case Nil
  then show ?case by simp
next
  case (Cons c cs)
  have "foldl (\<lambda>ce1 c. AddCore ce1 ent c) ce (c # cs)
      = foldl (\<lambda>ce1 c. AddCore ce1 ent c) (AddCore ce ent c) cs" by simp
  also have "\<dots> = Some ((case ce of None \<Rightarrow> getCheckedEntry \<lparr> ce_Entry := ent \<rparr> | Some c \<Rightarrow> c)
                  \<lparr> cores := cores (case ce of None \<Rightarrow> getCheckedEntry \<lparr> ce_Entry := ent \<rparr>
                                       | Some c \<Rightarrow> c) @ c # cs \<rparr>)"
    by (subst Cons.IH) (simp add: AddCore_def Let_def)
  finally show ?case by simp
qed

lemma Logger_check_terminal:
  assumes "level = PanicLevel \<or> level = FatalLevel"
  shows "Logger_check core clock level message rid
       = Some \<lparr> ce_Entry = \<lparr> Level = level, Time = clock, Message = message, ReqID = rid \<rparr>,
                ce_dirty = False,
                should = (if level = PanicLevel then WriteThenPanic else WriteThenFatal),
                cores = accepting core
                          \<lparr> Level = level, Time = clock, Message = message, ReqID = rid \<rparr> \<rparr>"
  using assms
  by (auto simp: Logger_check_def Core_Check_def foldl_AddCore Should_def getCheckedEntry_def
      Let_def)

lemma writeLoop_body_terminal:
  assumes "TryPop (ring lg) = Inr (Some lb, True, r')"
    and "lvl lb = PanicLevel \<or> lvl lb = FatalLevel"
  shows "writeLoop_body core clock lg
       = (if lvl lb = PanicLevel then Panicked (msg lb) else Exited 1,
          map (\<lambda>c. (c, \<lparr> Level = lvl lb, Time = clock, Message = msg lb, ReqID = reqid lb \<rparr>))
            (accepting core
               \<lparr> Level = lvl lb, Time = clock, Message = msg lb, ReqID = reqid lb \<rparr>),
          lg \<lparr> ring := r' \<rparr>)"
  using assms
  by (auto simp: writeLoop_body_def Logger_check_terminal CheckedEntry_Write_def Let_def)

lemma new_body:
  "fst (getLogBody pool) \<lparr> msg := message, lvl := level, reqid := rid \<rparr>
     = \<lparr> lvl = level, msg = message, reqid = rid \<rparr>"
  by (cases pool) (simp_all add: getLogBody_def logBody_reset_def)

lemma Push_returns:
  assumes "ring_inv r k"
  shows "\<exists>r' pool'. Push (Some x) (r, pool) = Inr (r', pool') \<and> ring_inv r' (Suc k)
          \<and> buckets r' ! unat ((writeIndex r + 1) AND rmask r) = Some x"
proof -
  from assms have l: "length (buckets r) = Suc (unat (rmask r))" by (simp add: ring_inv_def)
  have i: "unat ((writeIndex r + 1) AND rmask r) < length (buckets r)"
    by (rule idx_in_range [OF l])
  from Push_inv [OF assms, of "Some x" pool] obtain r' pool'
    where p: "Push (Some x) (r, pool) = Inr (r', pool')" and inv: "ring_inv r' (Suc k)" by blast
  from p i have "buckets r' ! unat ((writeIndex r + 1) AND rmask r) = Some x"
    by (auto simp: Push_def Let_def)
  then show ?thesis using p inv by blast
qed

lemma Logger_Panic_returns:
  assumes "ring_inv (ring lg) k"
  shows "\<exists>lg'. Logger_Panic rid message lg = (Returned, lg') \<and> ring_inv (ring lg') (Suc k)
          \<and> buckets (ring lg') ! unat ((writeIndex (ring lg) + 1) AND rmask (ring lg))
              = Some \<lparr> lvl = PanicLevel, msg = message, reqid = rid \<rparr>"
proof -
  from Push_returns [OF assms, of "\<lparr> lvl = PanicLevel, msg = message, reqid = rid \<rparr>"
      "snd (getLogBody (bodyPool lg))"]
  show ?thesis by (auto simp: Logger_Panic_def new_body Let_def)
qed

lemma Logger_Fatal_returns:
  assumes "ring_inv (ring lg) k"
  shows "\<exists>lg'. Logger_Fatal rid message lg = (Returned, lg') \<and> ring_inv (ring lg') (Suc k)
          \<and> buckets (ring lg') ! unat ((writeIndex (ring lg) + 1) AND rmask (ring lg))
              = Some \<lparr> lvl = FatalLevel, msg = message, reqid = rid \<rparr>"
proof -
  from Push_returns [OF assms, of "\<lparr> lvl = FatalLevel, msg = message, reqid = rid \<rparr>"
      "snd (getLogBody (bodyPool lg))"]
  show ?thesis by (auto simp: Logger_Fatal_def new_body Let_def)
qed

text \<open>
  A run from construction: the drain loop polls the empty ring and sleeps, the caller logs at
  the panic level and gets control back, and the next pass of the drain loop pops the event,
  writes it to the accepting destinations and panics.
\<close>

lemma fresh_ring_run:
  assumes "newRandRing n = Inr r0"
  shows "\<exists>r1 r2 r3.
           TryPop r0 = Inr (None, False, r1)
         \<and> Push (Some x) (r1, []) = Inr (r2, [])
         \<and> TryPop r2 = Inr (Some x, True, r3)"
proof -
  let ?N = "unat n"
  let ?bs = "replicate (2 ^ ?N) (None :: 'a option)"
  from newRandRing_mk [OF assms] have r0: "r0 = mk ?N (- 1) 0 0 ?bs" by simp
  have len: "0 < length ?bs" by simp
  have at: "?bs ! 0 = None" by simp
  have upd: "?bs[0 := None] = ?bs" using at by (metis list_update_id)
  have upd2: "(?bs[0 := Some x])[0 := None] = ?bs" using upd by simp
  have at2: "(?bs[0 := Some x]) ! 0 = Some x" using len by simp
  have pop1: "TryPop (mk ?N (- 1) 0 0 ?bs) = Inr (None, False, mk ?N (- 1) (- 1) 0 ?bs)"
    using upd at len by (simp add: TryPop_def mk_def Let_def)
  have push: "Push (Some x) (mk ?N (- 1) (- 1) 0 ?bs, [])
      = Inr (mk ?N 0 (- 1) 0 (?bs[0 := Some x]), [])"
    using at len by (simp add: Push_def mk_def Let_def)
  have pop2: "TryPop (mk ?N 0 (- 1) 0 (?bs[0 := Some x])) = Inr (Some x, True, mk ?N 0 (- 1) 1 ?bs)"
    using upd2 at2 len by (simp add: TryPop_def mk_def Let_def)
  from pop1 push pop2 show ?thesis unfolding r0 by blast
qed

lemma Logger_New_run:
  assumes "Logger_New = Inr lg0"
  shows "\<exists>lg1 lg2 lg3.
           writeLoop_body core clock lg0 = (Slept, [], lg1)
         \<and> Logger_Panic rid message lg1 = (Returned, lg2)
         \<and> writeLoop_body core clock' lg2
             = (Panicked message,
                map (\<lambda>c. (c, \<lparr> Level = PanicLevel, Time = clock', Message = message,
                                ReqID = rid \<rparr>))
                  (accepting core \<lparr> Level = PanicLevel, Time = clock', Message = message,
                                    ReqID = rid \<rparr>),
                lg3)"
proof -
  let ?lb = "\<lparr> lvl = PanicLevel, msg = message, reqid = rid \<rparr>"
  from assms obtain r0 where r0: "newRandRing 12 = Inr r0"
    and lg0: "lg0 = \<lparr> ring = r0, bodyPool = [] \<rparr>"
    by (auto simp: Logger_New_def split: sum.splits)
  from fresh_ring_run [OF r0, of ?lb] obtain r1 r2 r3
    where pop1: "TryPop r0 = Inr (None, False, r1)"
      and push: "Push (Some ?lb) (r1, []) = Inr (r2, [])"
      and pop2: "TryPop r2 = Inr (Some ?lb, True, r3)" by blast
  let ?lg1 = "\<lparr> ring = r1, bodyPool = [] \<rparr>"
  let ?lg2 = "\<lparr> ring = r2, bodyPool = [] \<rparr>"
  have 1: "writeLoop_body core clock lg0 = (Slept, [], ?lg1)"
    by (simp add: writeLoop_body_def lg0 pop1)
  have 2: "Logger_Panic rid message ?lg1 = (Returned, ?lg2)"
    by (simp add: Logger_Panic_def getLogBody_def logBody_reset_def push Let_def)
  have "TryPop (ring ?lg2) = Inr (Some ?lb, True, r3)" using pop2 by simp
  from writeLoop_body_terminal [OF this, of core clock']
  have 3: "writeLoop_body core clock' ?lg2
      = (Panicked message,
         map (\<lambda>c. (c, \<lparr> Level = PanicLevel, Time = clock', Message = message, ReqID = rid \<rparr>))
           (accepting core \<lparr> Level = PanicLevel, Time = clock', Message = message, ReqID = rid \<rparr>),
         ?lg2 \<lparr> ring := r3 \<rparr>)"
    by simp
  from 1 2 3 show ?thesis by blast
qed

text \<open>
  The other order: when the caller logs before the first poll of the drain loop, the guard
  \<open>readIndex >= writeIndexCache\<close> of \<open>TryPop\<close> holds after the refresh, the pass sleeps, and
  the event waits in the ring for a later push.
\<close>

lemma fresh_ring_push_first:
  assumes "newRandRing n = Inr (r0 :: 'a Ring)"
  shows "\<exists>r1. Push (Some x) (r0, []) = Inr (r1, [])
          \<and> TryPop r1 = Inr (None, False, r1)
          \<and> buckets r1 ! 0 = Some x"
proof -
  let ?N = "unat n"
  let ?bs = "replicate (2 ^ ?N) (None :: 'a option)"
  from newRandRing_mk [OF assms] have r0: "r0 = mk ?N (- 1) 0 0 ?bs" by simp
  have len: "0 < length ?bs" by simp
  have at: "?bs ! 0 = None" by simp
  have at2: "(?bs[0 := Some x]) ! 0 = Some x" using len by simp
  have push: "Push (Some x) (mk ?N (- 1) 0 0 ?bs, []) = Inr (mk ?N 0 0 0 (?bs[0 := Some x]), [])"
    using at len by (simp add: Push_def mk_def Let_def)
  have pop: "TryPop (mk ?N 0 0 0 (?bs[0 := Some x]))
      = Inr (None, False, mk ?N 0 0 0 (?bs[0 := Some x]))"
    using len by (simp add: TryPop_def mk_def Let_def)
  have b: "buckets (mk ?N 0 0 0 (?bs[0 := Some x])) ! 0 = Some x"
    using at2 by (simp add: mk_def)
  from push pop b show ?thesis unfolding r0 by blast
qed

lemma panic_before_first_poll:
  assumes "Logger_New = Inr lg0"
  shows "\<exists>lg1 lg2. Logger_Panic rid message lg0 = (Returned, lg1)
          \<and> writeLoop_body core clock lg1 = (Slept, [], lg2)
          \<and> buckets (ring lg2) ! 0 = Some \<lparr> lvl = PanicLevel, msg = message, reqid = rid \<rparr>"
proof -
  let ?lb = "\<lparr> lvl = PanicLevel, msg = message, reqid = rid \<rparr>"
  from assms obtain r0 where r0: "newRandRing 12 = Inr r0"
    and lg0: "lg0 = \<lparr> ring = r0, bodyPool = [] \<rparr>"
    by (auto simp: Logger_New_def split: sum.splits)
  from fresh_ring_push_first [OF r0, of ?lb] obtain r1
    where push: "Push (Some ?lb) (r0, []) = Inr (r1, [])"
      and pop: "TryPop r1 = Inr (None, False, r1)"
      and b: "buckets r1 ! 0 = Some ?lb" by blast
  let ?lg1 = "\<lparr> ring = r1, bodyPool = [] \<rparr>"
  have 1: "Logger_Panic rid message lg0 = (Returned, ?lg1)"
    by (simp add: lg0 Logger_Panic_def getLogBody_def logBody_reset_def push Let_def)
  have 2: "writeLoop_body core clock ?lg1 = (Slept, [], ?lg1)"
    by (simp add: writeLoop_body_def pop)
  have 3: "buckets (ring ?lg1) ! 0 = Some ?lb" using b by simp
  from 1 2 3 show ?thesis by blast
qed

text \<open>
  C3. A call to \<open>Logger.Panic\<close> or \<open>Logger.Fatal\<close> only pushes the event and returns to the
  caller: it neither panics nor exits. The terminal action is executed by the body of the
  drain loop, in the pass that pops the event, after the entry was written to the
  destinations that accept it, and also when no destination accepts it (logging at that
  level is disabled): \<open>panic(msg)\<close> for the panic level, \<open>os.Exit(1)\<close> for the fatal level.
\<close>

theorem terminal_action_deferred:
  "(ring_inv (ring lg) k \<longrightarrow>
      (\<exists>lg'. Logger_Panic rid message lg = (Returned, lg')
          \<and> buckets (ring lg') ! unat ((writeIndex (ring lg) + 1) AND rmask (ring lg))
              = Some \<lparr> lvl = PanicLevel, msg = message, reqid = rid \<rparr>)
      \<and> (\<exists>lg'. Logger_Fatal rid message lg = (Returned, lg')
          \<and> buckets (ring lg') ! unat ((writeIndex (ring lg) + 1) AND rmask (ring lg))
              = Some \<lparr> lvl = FatalLevel, msg = message, reqid = rid \<rparr>))
   \<and> (TryPop (ring lg) = Inr (Some lb, True, r') \<and> lvl lb = PanicLevel \<longrightarrow>
        writeLoop_body core clock lg
          = (Panicked (msg lb),
             map (\<lambda>c. (c, \<lparr> Level = PanicLevel, Time = clock, Message = msg lb,
                             ReqID = reqid lb \<rparr>))
               (accepting core \<lparr> Level = PanicLevel, Time = clock, Message = msg lb,
                                 ReqID = reqid lb \<rparr>),
             lg \<lparr> ring := r' \<rparr>))
   \<and> (TryPop (ring lg) = Inr (Some lb, True, r') \<and> lvl lb = FatalLevel \<longrightarrow>
        writeLoop_body core clock lg
          = (Exited 1,
             map (\<lambda>c. (c, \<lparr> Level = FatalLevel, Time = clock, Message = msg lb,
                             ReqID = reqid lb \<rparr>))
               (accepting core \<lparr> Level = FatalLevel, Time = clock, Message = msg lb,
                                 ReqID = reqid lb \<rparr>),
             lg \<lparr> ring := r' \<rparr>))
   \<and> (Logger_New = Inr lg0 \<longrightarrow>
        (\<exists>lg1 lg2 lg3.
           writeLoop_body core clock lg0 = (Slept, [], lg1)
         \<and> Logger_Panic rid message lg1 = (Returned, lg2)
         \<and> writeLoop_body core clock lg2
             = (Panicked message,
                map (\<lambda>c. (c, \<lparr> Level = PanicLevel, Time = clock, Message = message,
                                ReqID = rid \<rparr>))
                  (accepting core \<lparr> Level = PanicLevel, Time = clock, Message = message,
                                    ReqID = rid \<rparr>),
                lg3)))"
proof (intro conjI impI)
  assume "ring_inv (ring lg) k"
  then show "\<exists>lg'. Logger_Panic rid message lg = (Returned, lg')
          \<and> buckets (ring lg') ! unat ((writeIndex (ring lg) + 1) AND rmask (ring lg))
              = Some \<lparr> lvl = PanicLevel, msg = message, reqid = rid \<rparr>"
    using Logger_Panic_returns [of lg k rid message] by blast
next
  assume "ring_inv (ring lg) k"
  then show "\<exists>lg'. Logger_Fatal rid message lg = (Returned, lg')
          \<and> buckets (ring lg') ! unat ((writeIndex (ring lg) + 1) AND rmask (ring lg))
              = Some \<lparr> lvl = FatalLevel, msg = message, reqid = rid \<rparr>"
    using Logger_Fatal_returns [of lg k rid message] by blast
next
  assume "TryPop (ring lg) = Inr (Some lb, True, r') \<and> lvl lb = PanicLevel"
  then show "writeLoop_body core clock lg
          = (Panicked (msg lb),
             map (\<lambda>c. (c, \<lparr> Level = PanicLevel, Time = clock, Message = msg lb,
                             ReqID = reqid lb \<rparr>))
               (accepting core \<lparr> Level = PanicLevel, Time = clock, Message = msg lb,
                                 ReqID = reqid lb \<rparr>),
             lg \<lparr> ring := r' \<rparr>)"
    using writeLoop_body_terminal [of lg lb r' core clock] by simp
next
  assume "TryPop (ring lg) = Inr (Some lb, True, r') \<and> lvl lb = FatalLevel"
  then show "writeLoop_body core clock lg
          = (Exited 1,
             map (\<lambda>c. (c, \<lparr> Level = FatalLevel, Time = clock, Message = msg lb,
                             ReqID = reqid lb \<rparr>))
               (accepting core \<lparr> Level = FatalLevel, Time = clock, Message = msg lb,
                                 ReqID = reqid lb \<rparr>),
             lg \<lparr> ring := r' \<rparr>)"
    using writeLoop_body_terminal [of lg lb r' core clock] by simp
next
  assume "Logger_New = Inr lg0"
  then show "\<exists>lg1 lg2 lg3.
           writeLoop_body core clock lg0 = (Slept, [], lg1)
         \<and> Logger_Panic rid message lg1 = (Returned, lg2)
         \<and> writeLoop_body core clock lg2
             = (Panicked message,
                map (\<lambda>c. (c, \<lparr> Level = PanicLevel, Time = clock, Message = message,
                                ReqID = rid \<rparr>))
                  (accepting core \<lparr> Level = PanicLevel, Time = clock, Message = message,
                                    ReqID = rid \<rparr>),
                lg3)"
    by (rule Logger_New_run)
qed

theorem terminal_action_deferred_witness:
  "(\<exists>lg'. Logger_Panic ''req-1'' ''boom''
        \<lparr> ring = \<lparr> rmask = 1, writeIndex = - 1, writeIndexCache = 0, readIndex = 0,
                   buckets = [None, None] \<rparr>, bodyPool = [] \<rparr> = (Returned, lg'))
   \<and> (\<exists>lg'. Logger_Fatal ''req-1'' ''boom''
        \<lparr> ring = \<lparr> rmask = 1, writeIndex = - 1, writeIndexCache = 0, readIndex = 0,
                   buckets = [None, None] \<rparr>, bodyPool = [] \<rparr> = (Returned, lg'))
   \<and> fst (writeLoop_body \<lparr> Enabled = (\<lambda>l. False), accepting = (\<lambda>e. [] :: nat list) \<rparr> 5
        \<lparr> ring = \<lparr> rmask = 1, writeIndex = 0, writeIndexCache = - 1, readIndex = 0,
                   buckets = [Some \<lparr> lvl = PanicLevel, msg = ''boom'', reqid = ''req-1'' \<rparr>,
                              None] \<rparr>, bodyPool = [] \<rparr>) = Panicked ''boom''
   \<and> fst (writeLoop_body \<lparr> Enabled = (\<lambda>l. False), accepting = (\<lambda>e. [] :: nat list) \<rparr> 5
        \<lparr> ring = \<lparr> rmask = 1, writeIndex = 0, writeIndexCache = - 1, readIndex = 0,
                   buckets = [Some \<lparr> lvl = FatalLevel, msg = ''boom'', reqid = ''req-1'' \<rparr>,
                              None] \<rparr>, bodyPool = [] \<rparr>) = Exited 1
   \<and> (\<exists>lg0 lg1 lg2 lg3. Logger_New = Inr lg0
        \<and> writeLoop_body \<lparr> Enabled = (\<lambda>l. False), accepting = (\<lambda>e. [] :: nat list) \<rparr> 5 lg0
            = (Slept, [], lg1)
        \<and> Logger_Panic ''req-1'' ''boom'' lg1 = (Returned, lg2)
        \<and> writeLoop_body \<lparr> Enabled = (\<lambda>l. False), accepting = (\<lambda>e. [] :: nat list) \<rparr> 5 lg2
            = (Panicked ''boom'', [], lg3))"
proof -
  let ?off = "\<lparr> Enabled = (\<lambda>l. False), accepting = (\<lambda>e. [] :: nat list) \<rparr>"
  let ?fresh = "\<lparr> rmask = 1, writeIndex = - 1, writeIndexCache = 0, readIndex = 0,
                  buckets = [None, None :: logBody option] \<rparr>"
  let ?lbP = "\<lparr> lvl = PanicLevel, msg = ''boom'', reqid = ''req-1'' \<rparr>"
  let ?lbF = "\<lparr> lvl = FatalLevel, msg = ''boom'', reqid = ''req-1'' \<rparr>"
  let ?rP = "\<lparr> rmask = 1, writeIndex = 0, writeIndexCache = - 1, readIndex = 0,
               buckets = [Some ?lbP, None] \<rparr>"
  let ?rF = "\<lparr> rmask = 1, writeIndex = 0, writeIndexCache = - 1, readIndex = 0,
               buckets = [Some ?lbF, None] \<rparr>"
  let ?r' = "\<lparr> rmask = 1, writeIndex = 0, writeIndexCache = - 1, readIndex = 1,
               buckets = [None, None :: logBody option] \<rparr>"
  have inv: "ring_inv (ring \<lparr> ring = ?fresh, bodyPool = [] \<rparr>) 0"
    using fresh_inv [OF newRandRing_1] by simp
  have popP: "TryPop (ring \<lparr> ring = ?rP, bodyPool = [] \<rparr>) = Inr (Some ?lbP, True, ?r')
      \<and> lvl ?lbP = PanicLevel"
    by (simp add: TryPop_def Let_def)
  have popF: "TryPop (ring \<lparr> ring = ?rF, bodyPool = [] \<rparr>) = Inr (Some ?lbF, True, ?r')
      \<and> lvl ?lbF = FatalLevel"
    by (simp add: TryPop_def Let_def)
  obtain r0 :: "logBody Ring" where "newRandRing 12 = Inr r0"
    by (simp add: newRandRing_def)
  then have new: "Logger_New = Inr \<lparr> ring = r0, bodyPool = [] \<rparr>"
    by (simp add: Logger_New_def)
  note t = terminal_action_deferred [where core = ?off and clock = 5 and rid = "''req-1''"
      and message = "''boom''"]
  from t [where lg = "\<lparr> ring = ?fresh, bodyPool = [] \<rparr>" and k = 0] inv
  have 1: "(\<exists>lg'. Logger_Panic ''req-1'' ''boom'' \<lparr> ring = ?fresh, bodyPool = [] \<rparr> = (Returned, lg'))
      \<and> (\<exists>lg'. Logger_Fatal ''req-1'' ''boom'' \<lparr> ring = ?fresh, bodyPool = [] \<rparr> = (Returned, lg'))"
    by blast
  from t [where lg = "\<lparr> ring = ?rP, bodyPool = [] \<rparr>" and lb = ?lbP and r' = ?r'] popP
  have 2: "fst (writeLoop_body ?off 5 \<lparr> ring = ?rP, bodyPool = [] \<rparr>) = Panicked ''boom''"
    by simp
  from t [where lg = "\<lparr> ring = ?rF, bodyPool = [] \<rparr>" and lb = ?lbF and r' = ?r'] popF
  have 3: "fst (writeLoop_body ?off 5 \<lparr> ring = ?rF, bodyPool = [] \<rparr>) = Exited 1"
    by simp
  from t [where ?lg0.0 = "\<lparr> ring = r0, bodyPool = [] \<rparr>"] new
  have 4: "\<exists>lg0 lg1 lg2 lg3. Logger_New = Inr lg0
        \<and> writeLoop_body ?off 5 lg0 = (Slept, [], lg1)
        \<and> Logger_Panic ''req-1'' ''boom'' lg1 = (Returned, lg2)
        \<and> writeLoop_body ?off 5 lg2 = (Panicked ''boom'', [], lg3)"
    by auto
  from 1 2 3 4 show ?thesis by blast
qed


end
